theory Spec2Isabelle
  imports Main
begin

section \<open>Data model\<close>

text \<open>
  A cell of the maze is the five-element array of \<^verbatim>\<open>maze.js\<close>:
  index 0 is the top wall, 1 the right wall, 2 the bottom wall, 3 the left wall
  (1 = wall up, 0 = knocked down) and index 4 the visited flag.
  \<^verbatim>\<open>Maze\<close> is the two-dimensional array of cells; reading
  \<^verbatim>\<open>Maze[x][y]\<close> where nothing was allocated yields \<^verbatim>\<open>undefined\<close>,
  and indexing that raises a TypeError.  The array is modelled as a partial map from
  coordinates to cells, so that every such access is a branch of the model.
\<close>

type_synonym coord = "int \<times> int"

record cell =
  top_wall :: nat
  right_wall :: nat
  bottom_wall :: nat
  left_wall :: nat
  visited :: bool

type_synonym maze = "coord \<rightharpoonup> cell"

datatype error = TypeError | RangeError

text \<open>The cell written by the allocation loop of \<^verbatim>\<open>LoadMaze\<close>.\<close>

definition new_cell :: cell where
  "new_cell = \<lparr>top_wall = 1, right_wall = 1, bottom_wall = 1, left_wall = 1, visited = False\<rparr>"

text \<open>The coordinates run through by \<^verbatim>\<open>for i < WIDTH, for j < HEIGHT\<close>, in that order.\<close>

definition grid_coords :: "int \<Rightarrow> int \<Rightarrow> coord list" where
  "grid_coords W H = concat (map (\<lambda>i. map (\<lambda>j. (i, j)) [0..H - 1]) [0..W - 1])"

definition inside :: "int \<Rightarrow> int \<Rightarrow> coord \<Rightarrow> bool" where
  "inside W H c = (0 \<le> fst c \<and> fst c < W \<and> 0 \<le> snd c \<and> snd c < H)"

section \<open>The generator (maze.js)\<close>

text \<open>
  The global variables of \<^verbatim>\<open>maze.js\<close> that the generator and the solver read or
  write.  \<^verbatim>\<open>Math.random\<close> is a supply of draws: the list holds the draws still to
  come, and a supply that ran out keeps answering 0.
\<close>

record page =
  WIDTH :: int
  HEIGHT :: int
  STARTING_X :: int
  STARTING_Y :: int
  ENTRANCE_X :: int
  ENTRANCE_Y :: int
  CELL_SIZE :: int
  BORDER_WIDTH :: int
  ENTER :: nat
  EXIT :: nat
  Maze :: maze
  Solution_List :: "coord list"
  Steps_to_Solve :: nat
  Math_random :: "nat list"


definition ResetValues :: "page \<Rightarrow> page" where
  "ResetValues g = g\<lparr>Maze := Map.empty, Solution_List := [], Steps_to_Solve := 0\<rparr>"





text \<open>
  \<^verbatim>\<open>GetNeighbors\<close>: the cells above, to the right of, below and to the left of
  \<open>(w, h)\<close>, in that order, leaving out those beyond the edges.
\<close>

definition GetNeighbors :: "int \<Rightarrow> int \<Rightarrow> coord \<Rightarrow> coord list" where
  "GetNeighbors W H c =
    (let w = fst c; h = snd c in
       (if h \<noteq> 0 then [(w, h - 1)] else [])
     @ (if w < W - 1 then [(w + 1, h)] else [])
     @ (if h < H - 1 then [(w, h + 1)] else [])
     @ (if w \<noteq> 0 then [(w - 1, h)] else []))"

text \<open>
  \<^verbatim>\<open>Math.floor(Math.random() * n)\<close>: the next draw of the supply, as an index
  below \<open>n\<close>.
\<close>

fun random_index :: "nat \<Rightarrow> nat list \<Rightarrow> nat \<times> nat list" where
  "random_index n [] = (0, [])"
| "random_index n (r # rs) = (r mod n, rs)"

text \<open>
  \<^verbatim>\<open>ShuffleNeighbors\<close>: for every position \<open>i\<close> from 0 to the end of the list, draw
  an index over the whole list and swap the entries at \<open>i\<close> and at that index.
\<close>

function ShuffleLoop :: "nat \<Rightarrow> coord list \<Rightarrow> nat list \<Rightarrow> coord list \<times> nat list" where
  "ShuffleLoop i neighbors rnd =
    (if i < length neighbors then
       (let (r, rnd') = random_index (length neighbors) rnd;
            temp_array = neighbors ! i;
            neighbors1 = neighbors[i := neighbors ! r];
            neighbors2 = neighbors1[r := temp_array]
        in ShuffleLoop (i + 1) neighbors2 rnd')
     else (neighbors, rnd))"
  by pat_completeness auto
termination
  by (relation "measure (\<lambda>(i, neighbors, rnd). length neighbors - i)") auto

declare ShuffleLoop.simps [simp del]

definition ShuffleNeighbors :: "coord list \<Rightarrow> nat list \<Rightarrow> coord list \<times> nat list" where
  "ShuffleNeighbors neighbors rnd = ShuffleLoop 0 neighbors rnd"

text \<open>
  An assignment \<^verbatim>\<open>Maze[x][y][k] = v\<close>: it raises a TypeError when the cell does
  not exist.
\<close>

definition assign :: "maze \<Rightarrow> coord \<Rightarrow> (cell \<Rightarrow> cell) \<Rightarrow> error + maze" where
  "assign M c f = (case M c of None \<Rightarrow> Inl TypeError | Some a \<Rightarrow> Inr (M(c \<mapsto> f a)))"

text \<open>
  \<^verbatim>\<open>RemoveWall\<close>: the first of the four comparisons that holds decides which pair
  of flags is cleared, the flag of the cell first and then the flag of the neighbor.
\<close>

definition RemoveWall :: "maze \<Rightarrow> coord \<Rightarrow> coord \<Rightarrow> error + maze" where
  "RemoveWall M c neighbor =
    (if snd neighbor < snd c then
       (case assign M c (\<lambda>a. a\<lparr>top_wall := 0\<rparr>) of Inl e \<Rightarrow> Inl e
        | Inr M1 \<Rightarrow> assign M1 neighbor (\<lambda>a. a\<lparr>bottom_wall := 0\<rparr>))
     else if snd neighbor > snd c then
       (case assign M c (\<lambda>a. a\<lparr>bottom_wall := 0\<rparr>) of Inl e \<Rightarrow> Inl e
        | Inr M1 \<Rightarrow> assign M1 neighbor (\<lambda>a. a\<lparr>top_wall := 0\<rparr>))
     else if fst neighbor > fst c then
       (case assign M c (\<lambda>a. a\<lparr>right_wall := 0\<rparr>) of Inl e \<Rightarrow> Inl e
        | Inr M1 \<Rightarrow> assign M1 neighbor (\<lambda>a. a\<lparr>left_wall := 0\<rparr>))
     else if fst neighbor < fst c then
       (case assign M c (\<lambda>a. a\<lparr>left_wall := 0\<rparr>) of Inl e \<Rightarrow> Inl e
        | Inr M1 \<Rightarrow> assign M1 neighbor (\<lambda>a. a\<lparr>right_wall := 0\<rparr>))
     else Inr M)"

text \<open>
  \<^verbatim>\<open>GenerateMaze\<close>.  The first argument is the depth of recursion the call stack
  still allows: a call that finds it used up raises a RangeError, as the engine does on
  a stack overflow.  \<open>GenerateMaze_loop\<close> is the \<^verbatim>\<open>for\<close> loop over the shuffled
  neighbors of the cell \<open>c\<close>; its first argument stands for the recursive call in the
  body of the loop.
\<close>

type_synonym carver_state = "maze \<times> nat list"

fun GenerateMaze_loop ::
  "(coord \<Rightarrow> carver_state \<Rightarrow> error + carver_state) \<Rightarrow> coord \<Rightarrow> coord list \<Rightarrow> carver_state
    \<Rightarrow> error + carver_state" where
  "GenerateMaze_loop call c [] s = Inr s"
| "GenerateMaze_loop call c (n # ns) s =
    (case fst s n of
       None \<Rightarrow> Inl TypeError
     | Some b \<Rightarrow>
        (if visited b = False then
           (case RemoveWall (fst s) c n of
              Inl e \<Rightarrow> Inl e
            | Inr M1 \<Rightarrow>
               (case call n (M1, snd s) of
                  Inl e \<Rightarrow> Inl e
                | Inr s' \<Rightarrow> GenerateMaze_loop call c ns s'))
         else GenerateMaze_loop call c ns s))"

primrec GenerateMaze :: "nat \<Rightarrow> int \<Rightarrow> int \<Rightarrow> coord \<Rightarrow> carver_state \<Rightarrow> error + carver_state" where
  "GenerateMaze 0 W H c s = Inl RangeError"
| "GenerateMaze (Suc d) W H c s =
    (case assign (fst s) c (\<lambda>a. a\<lparr>visited := True\<rparr>) of
       Inl e \<Rightarrow> Inl e
     | Inr M1 \<Rightarrow>
        (let neighbors_unshuffled = GetNeighbors W H c;
             shuffled = ShuffleNeighbors neighbors_unshuffled (snd s)
         in GenerateMaze_loop (GenerateMaze d W H) c (fst shuffled) (M1, snd shuffled)))"

text \<open>
  \<^verbatim>\<open>InstallDoors\<close>: the wall of the entrance cell numbered \<^verbatim>\<open>ENTER\<close> and the
  wall of the exit cell numbered \<^verbatim>\<open>EXIT\<close> are cleared; a number other than 0 to 3
  clears nothing.
\<close>

definition open_side :: "nat \<Rightarrow> cell \<Rightarrow> cell" where
  "open_side k a =
    (if k = 0 then a\<lparr>top_wall := 0\<rparr>
     else if k = 1 then a\<lparr>right_wall := 0\<rparr>
     else if k = 2 then a\<lparr>bottom_wall := 0\<rparr>
     else if k = 3 then a\<lparr>left_wall := 0\<rparr>
     else a)"

definition InstallDoors :: "page \<Rightarrow> error + page" where
  "InstallDoors g =
    (case (if ENTER g < 4 then assign (Maze g) (ENTRANCE_X g, ENTRANCE_Y g) (open_side (ENTER g))
           else Inr (Maze g)) of
       Inl e \<Rightarrow> Inl e
     | Inr M1 \<Rightarrow>
        (case (if EXIT g < 4 then assign M1 (STARTING_X g, STARTING_Y g) (open_side (EXIT g))
               else Inr M1) of
           Inl e \<Rightarrow> Inl e
         | Inr M2 \<Rightarrow> Inr (g\<lparr>Maze := M2\<rparr>)))"

text \<open>
  The allocation loops of \<^verbatim>\<open>LoadMaze\<close>: column \<open>i\<close> is replaced by a fresh
  array, which is then filled with \<open>HEIGHT\<close> new cells.
\<close>

definition new_column :: "int \<Rightarrow> int \<Rightarrow> maze \<Rightarrow> maze" where
  "new_column H i M =
    fold (\<lambda>j M'. M'((i, j) \<mapsto> new_cell)) [0..H - 1] (\<lambda>c. if fst c = i then None else M c)"

definition allocate :: "int \<Rightarrow> int \<Rightarrow> maze \<Rightarrow> maze" where
  "allocate W H M = fold (new_column H) [0..W - 1] M"

text \<open>
  The part of \<^verbatim>\<open>LoadMaze\<close> that builds the grid: the allocation, the carving from
  the cell \<^verbatim>\<open>(STARTING_X, STARTING_Y)\<close>, where the exit will be, and the doors.
\<close>

definition BuildMaze :: "nat \<Rightarrow> page \<Rightarrow> error + page" where
  "BuildMaze depth g =
    (let M0 = allocate (WIDTH g) (HEIGHT g) (Maze g) in
     case GenerateMaze depth (WIDTH g) (HEIGHT g) (STARTING_X g, STARTING_Y g) (M0, Math_random g) of
       Inl e \<Rightarrow> Inl e
     | Inr s \<Rightarrow> InstallDoors (g\<lparr>Maze := fst s, Math_random := snd s\<rparr>))"

section \<open>The solver (maze.js)\<close>

text \<open>
  The loops that set the visited flag of every cell back to false, at the start of
  \<^verbatim>\<open>SolveMaze\<close> and again when \<^verbatim>\<open>solver.js\<close> is loaded.  A cell that does not
  exist stops the loops with a TypeError; the flags cleared until then stay cleared.
\<close>

fun clear_visited :: "coord list \<Rightarrow> maze \<Rightarrow> error option \<times> maze" where
  "clear_visited [] M = (None, M)"
| "clear_visited (c # cs) M =
    (case M c of
       None \<Rightarrow> (Some TypeError, M)
     | Some a \<Rightarrow> clear_visited cs (M(c \<mapsto> a\<lparr>visited := False\<rparr>)))"

text \<open>
  One of the four tests of \<^verbatim>\<open>GetNeighborAccess\<close>: the wall flag is 0, the cell is
  not on that edge of the grid, and the neighbor has not been visited.  The neighbor is
  read only when the first two hold.
\<close>

definition accessible :: "maze \<Rightarrow> nat \<Rightarrow> bool \<Rightarrow> coord \<Rightarrow> error + coord list" where
  "accessible M wall not_on_edge neighbor =
    (if wall = 0 \<and> not_on_edge then
       (case M neighbor of
          None \<Rightarrow> Inl TypeError
        | Some b \<Rightarrow> Inr (if visited b = False then [neighbor] else []))
     else Inr [])"

definition GetNeighborAccess :: "int \<Rightarrow> int \<Rightarrow> maze \<Rightarrow> coord \<Rightarrow> error + coord list" where
  "GetNeighborAccess W H M c =
    (let x = fst c; y = snd c in
     case M c of
       None \<Rightarrow> Inl TypeError
     | Some a \<Rightarrow>
        (case accessible M (top_wall a) (y \<noteq> 0) (x, y - 1) of
           Inl e \<Rightarrow> Inl e
         | Inr l0 \<Rightarrow>
            (case accessible M (right_wall a) (x \<noteq> W - 1) (x + 1, y) of
               Inl e \<Rightarrow> Inl e
             | Inr l1 \<Rightarrow>
                (case accessible M (bottom_wall a) (y \<noteq> H - 1) (x, y + 1) of
                   Inl e \<Rightarrow> Inl e
                 | Inr l2 \<Rightarrow>
                    (case accessible M (left_wall a) (x \<noteq> 0) (x - 1, y) of
                       Inl e \<Rightarrow> Inl e
                     | Inr l3 \<Rightarrow> Inr (l0 @ l1 @ l2 @ l3))))))"

text \<open>
  \<^verbatim>\<open>Solver\<close>.  The state is the maze, \<^verbatim>\<open>Solution_List\<close> and
  \<^verbatim>\<open>Steps_to_Solve\<close>; \<open>E\<close> is the cell \<^verbatim>\<open>(STARTING_X, STARTING_Y)\<close>.  The first
  argument bounds the depth of recursion as in \<open>GenerateMaze\<close>; \<open>Solver_loop\<close> is the
  loop over the accessible neighbors of \<open>c\<close>, its first argument the recursive call.
\<close>

type_synonym solver_state = "maze \<times> coord list \<times> nat"

fun Solver_loop ::
  "(coord \<Rightarrow> solver_state \<Rightarrow> error + bool \<times> solver_state) \<Rightarrow> coord \<Rightarrow> coord list \<Rightarrow> solver_state
    \<Rightarrow> error + bool \<times> solver_state" where
  "Solver_loop call c [] s = Inr (False, s)"
| "Solver_loop call c (n # ns) s =
    (case call n s of
       Inl e \<Rightarrow> Inl e
     | Inr r \<Rightarrow>
        (if fst r = True then
           Inr (True, (fst (snd r), fst (snd (snd r)) @ [c], snd (snd (snd r)) + 1))
         else Solver_loop call c ns (snd r)))"

primrec Solver ::
  "nat \<Rightarrow> int \<Rightarrow> int \<Rightarrow> coord \<Rightarrow> coord \<Rightarrow> solver_state \<Rightarrow> error + bool \<times> solver_state" where
  "Solver 0 W H E c s = Inl RangeError"
| "Solver (Suc d) W H E c s =
    (if fst c = fst E \<and> snd c = snd E then
       Inr (True, (fst s, fst (snd s) @ [c], snd (snd s)))
     else
       (case assign (fst s) c (\<lambda>a. a\<lparr>visited := True\<rparr>) of
          Inl e \<Rightarrow> Inl e
        | Inr M1 \<Rightarrow>
           (case GetNeighborAccess W H M1 c of
              Inl e \<Rightarrow> Inl e
            | Inr neighbors \<Rightarrow> Solver_loop (Solver d W H E) c neighbors (M1, snd s))))"

definition SolveMaze :: "nat \<Rightarrow> page \<Rightarrow> error + page" where
  "SolveMaze depth g =
    (case clear_visited (grid_coords (WIDTH g) (HEIGHT g)) (Maze g) of
       (Some e, M) \<Rightarrow> Inl e
     | (None, M) \<Rightarrow>
        (case Solver depth (WIDTH g) (HEIGHT g) (STARTING_X g, STARTING_Y g)
                (ENTRANCE_X g, ENTRANCE_Y g) (M, Solution_List g, Steps_to_Solve g) of
           Inl e \<Rightarrow> Inl e
         | Inr r \<Rightarrow>
            Inr (g\<lparr>Maze := fst (snd r), Solution_List := fst (snd (snd r)),
                   Steps_to_Solve := snd (snd (snd r))\<rparr>)))"


section \<open>The navigator (solver.js)\<close>

text \<open>
  The global variables that \<^verbatim>\<open>solver.js\<close> copies from the opening window when it
  is loaded and never assigns again (\<^verbatim>\<open>WIDTH\<close>, \<^verbatim>\<open>HEIGHT\<close> and
  \<^verbatim>\<open>Steps_to_Solve\<close> carry a prime here).
\<close>

record opener =
  Start_X :: int
  Start_Y :: int
  End_X :: int
  End_Y :: int
  WIDTH' :: int
  HEIGHT' :: int
  Exit :: nat
  Enter :: nat
  Steps_to_Solve' :: nat

text \<open>
  The variables that change during play.  \<^verbatim>\<open>Maze\<close> is the array of the opening
  window.  \<open>showsplits\<close> is the state of the checkbox of that name, and \<open>livestats\<close>
  what \<^verbatim>\<open>ShowStats\<close> has displayed: the total move count, the minimum move count
  and the total jump count (the percentage is a floating-point quotient of the first
  two and is left out).
\<close>

record session =
  Maze' :: maze
  Current_Location :: coord
  User_Moves :: nat
  User_Jumps :: nat
  showsplits :: bool
  livestats :: "(nat \<times> nat \<times> nat) option"

text \<open>
  \<^verbatim>\<open>document.getElementById(x + '_' + y)\<close>: \<^verbatim>\<open>DrawMaze\<close> made one element
  for every cell of the grid, so the lookup returns null for any other coordinate.
\<close>

definition has_element :: "opener \<Rightarrow> coord \<Rightarrow> bool" where
  "has_element cf c = inside (WIDTH' cf) (HEIGHT' cf) c"

text \<open>
  \<^verbatim>\<open>ClearCurrentCell\<close> changes styles only.  It raises a TypeError when the
  current location has no element, and when \<^verbatim>\<open>CountOpenings\<close>, called if the
  checkbox is set, reads a cell that does not exist.
\<close>

definition ClearCurrentCell :: "opener \<Rightarrow> session \<Rightarrow> error option" where
  "ClearCurrentCell cf s =
    (if \<not> has_element cf (Current_Location s) then Some TypeError
     else if showsplits s \<and> Maze' s (Current_Location s) = None then Some TypeError
     else None)"

definition UpdatePosition :: "opener \<Rightarrow> session \<Rightarrow> error option \<times> session" where
  "UpdatePosition cf s =
    (case assign (Maze' s) (Current_Location s) (\<lambda>a. a\<lparr>visited := True\<rparr>) of
       Inl e \<Rightarrow> (Some e, s)
     | Inr M \<Rightarrow>
        (if has_element cf (Current_Location s) then (None, s\<lparr>Maze' := M\<rparr>)
         else (Some TypeError, s\<lparr>Maze' := M\<rparr>)))"

definition ShowStats :: "opener \<Rightarrow> session \<Rightarrow> session" where
  "ShowStats cf s = s\<lparr>livestats := Some (User_Moves s, Steps_to_Solve' cf, User_Jumps s)\<rparr>"

definition CheckFinish :: "opener \<Rightarrow> nat \<Rightarrow> session \<Rightarrow> bool \<times> session" where
  "CheckFinish cf direction s =
    (if fst (Current_Location s) = End_X cf \<and> snd (Current_Location s) = End_Y cf
        \<and> direction = Exit cf
     then (True, ShowStats cf (s\<lparr>Current_Location := (- 1, - 1)\<rparr>))
     else (False, s))"

definition CheckStart :: "opener \<Rightarrow> nat \<Rightarrow> session \<Rightarrow> bool" where
  "CheckStart cf direction s =
    (fst (Current_Location s) = Start_X cf \<and> snd (Current_Location s) = Start_Y cf
     \<and> direction = Enter cf)"

text \<open>
  The four move functions differ in the number of the direction, in the wall flag they
  read and in the coordinate they change; \<open>Move\<close> is their common body.
\<close>

definition Move ::
  "opener \<Rightarrow> nat \<Rightarrow> (cell \<Rightarrow> nat) \<Rightarrow> (coord \<Rightarrow> coord) \<Rightarrow> session \<Rightarrow> error option \<times> session" where
  "Move cf direction wall step s =
    (if CheckStart cf direction s then (None, s)
     else
       (case Maze' s (Current_Location s) of
          None \<Rightarrow> (Some TypeError, s)
        | Some a \<Rightarrow>
           (if wall a = 0 then
              (case ClearCurrentCell cf s of
                 Some e \<Rightarrow> (Some e, s)
               | None \<Rightarrow>
                  (let r = CheckFinish cf direction s in
                   if fst r then (None, snd r)
                   else
                     (let u = UpdatePosition cf
                                ((snd r)\<lparr>Current_Location := step (Current_Location (snd r))\<rparr>)
                      in case fst u of
                           Some e \<Rightarrow> (Some e, snd u)
                         | None \<Rightarrow> (None, (snd u)\<lparr>User_Moves := User_Moves (snd u) + 1\<rparr>))))
            else (None, s))))"

definition MoveUp :: "opener \<Rightarrow> session \<Rightarrow> error option \<times> session" where
  "MoveUp cf = Move cf 0 top_wall (\<lambda>c. (fst c, snd c - 1))"

definition MoveDown :: "opener \<Rightarrow> session \<Rightarrow> error option \<times> session" where
  "MoveDown cf = Move cf 2 bottom_wall (\<lambda>c. (fst c, snd c + 1))"

definition MoveLeft :: "opener \<Rightarrow> session \<Rightarrow> error option \<times> session" where
  "MoveLeft cf = Move cf 3 left_wall (\<lambda>c. (fst c - 1, snd c))"

definition MoveRight :: "opener \<Rightarrow> session \<Rightarrow> error option \<times> session" where
  "MoveRight cf = Move cf 1 right_wall (\<lambda>c. (fst c + 1, snd c))"

definition JumpHere :: "opener \<Rightarrow> coord \<Rightarrow> session \<Rightarrow> error option \<times> session" where
  "JumpHere cf target s =
    (case Maze' s target of
       None \<Rightarrow> (Some TypeError, s)
     | Some a \<Rightarrow>
        (if visited a = True then
           (case ClearCurrentCell cf s of
              Some e \<Rightarrow> (Some e, s)
            | None \<Rightarrow>
               (let u = UpdatePosition cf (s\<lparr>Current_Location := target\<rparr>)
                in case fst u of
                     Some e \<Rightarrow> (Some e, snd u)
                   | None \<Rightarrow> (None, (snd u)\<lparr>User_Jumps := User_Jumps (snd u) + 1\<rparr>)))
         else (None, s)))"

text \<open>
  What \<^verbatim>\<open>solver.js\<close> does when it is loaded: it copies the variables of the
  opening window, clears the visited flags and calls \<^verbatim>\<open>Start\<close>, which marks the
  entrance cell.
\<close>

definition copy_setup :: "page \<Rightarrow> opener" where
  "copy_setup g =
    \<lparr>Start_X = ENTRANCE_X g, Start_Y = ENTRANCE_Y g, End_X = STARTING_X g,
     End_Y = STARTING_Y g, WIDTH' = WIDTH g, HEIGHT' = HEIGHT g, Exit = EXIT g,
     Enter = ENTER g, Steps_to_Solve' = Steps_to_Solve g\<rparr>"

definition load_solver :: "page \<Rightarrow> bool \<Rightarrow> error option \<times> session" where
  "load_solver g splits =
    (let s = \<lparr>Maze' = Maze g, Current_Location = (ENTRANCE_X g, ENTRANCE_Y g),
              User_Moves = 0, User_Jumps = 0, showsplits = splits, livestats = None\<rparr>;
         r = clear_visited (grid_coords (WIDTH g) (HEIGHT g)) (Maze g)
     in case fst r of
          Some e \<Rightarrow> (Some e, s\<lparr>Maze' := snd r\<rparr>)
        | None \<Rightarrow> UpdatePosition (copy_setup g) (s\<lparr>Maze' := snd r\<rparr>))"

text \<open>
  The actions of the player: the four moves, and a click on the element of a cell,
  which calls \<^verbatim>\<open>JumpHere\<close> with the coordinates of that cell.
\<close>

datatype action = Up | Down | Left | Right | Click coord

fun handle :: "opener \<Rightarrow> action \<Rightarrow> session \<Rightarrow> session" where
  "handle cf Up s = snd (MoveUp cf s)"
| "handle cf Down s = snd (MoveDown cf s)"
| "handle cf Left s = snd (MoveLeft cf s)"
| "handle cf Right s = snd (MoveRight cf s)"
| "handle cf (Click c) s = (if has_element cf c then snd (JumpHere cf c s) else s)"

text \<open>The move function for a direction number, and the wall flag with that number.\<close>

definition move_in :: "opener \<Rightarrow> nat \<Rightarrow> session \<Rightarrow> error option \<times> session" where
  "move_in cf k = (if k = 0 then MoveUp cf else if k = 1 then MoveRight cf
                   else if k = 2 then MoveDown cf else MoveLeft cf)"

definition wall_of :: "nat \<Rightarrow> cell \<Rightarrow> nat" where
  "wall_of k a = (if k = 0 then top_wall a else if k = 1 then right_wall a
                  else if k = 2 then bottom_wall a else left_wall a)"


text \<open>
  The scenario of the specification: a grid of two cells side by side, the wall
  between them removed, the entrance on the left of \<open>(0, 0)\<close> and the exit on the
  right of \<open>(1, 0)\<close>.
\<close>

definition two_cells :: page where
  "two_cells =
    \<lparr>WIDTH = 2, HEIGHT = 1, STARTING_X = 1, STARTING_Y = 0, ENTRANCE_X = 0, ENTRANCE_Y = 0,
     CELL_SIZE = 20, BORDER_WIDTH = 1, ENTER = 3, EXIT = 1,
     Maze = [(0, 0) \<mapsto> \<lparr>top_wall = 1, right_wall = 0, bottom_wall = 1, left_wall = 0,
                           visited = False\<rparr>,
             (1, 0) \<mapsto> \<lparr>top_wall = 1, right_wall = 0, bottom_wall = 1, left_wall = 0,
                           visited = False\<rparr>],
     Solution_List = [(1, 0), (0, 0)], Steps_to_Solve = 1, Math_random = []\<rparr>"

section \<open>Predicates used in the statements\<close>



text \<open>
  The outcomes of \<open>ShuffleNeighbors\<close> on a list of \<open>n\<close> entries for each of the
  \<open>n ^ n\<close> sequences of \<open>n\<close> draws below \<open>n\<close>; with independent uniform draws these
  sequences are equally likely, so an order is as likely as it is frequent in the list.
\<close>

definition shuffle_outcomes :: "coord list \<Rightarrow> coord list list" where
  "shuffle_outcomes neighbors =
     map (\<lambda>draws. fst (ShuffleNeighbors neighbors draws))
       (List.n_lists (length neighbors) [0..<length neighbors])"




text \<open>
  The coordinate next to \<open>c\<close> on the side numbered \<open>k\<close> (0 above, 1 to the right,
  2 below, 3 to the left), and the number of the side facing back.
\<close>

definition toward :: "nat \<Rightarrow> coord \<Rightarrow> coord" where
  "toward k c = (if k = 0 then (fst c, snd c - 1) else if k = 1 then (fst c + 1, snd c)
                 else if k = 2 then (fst c, snd c + 1) else (fst c - 1, snd c))"

definition opposite :: "nat \<Rightarrow> nat" where
  "opposite k = (k + 2) mod 4"

text \<open>
  \<open>open_to M a b\<close>: the cell \<open>a\<close> exists, \<open>b\<close> is the coordinate next to it on one
  of its four sides, and the wall flag of \<open>a\<close> on that side is 0.  A passage is a wall
  removed on both sides; \<open>passages\<close> are the passages between cells of the grid.
\<close>

definition open_to :: "maze \<Rightarrow> coord \<Rightarrow> coord \<Rightarrow> bool" where
  "open_to M a b =
    (case M a of
       None \<Rightarrow> False
     | Some ca \<Rightarrow>
         (b = toward 0 a \<and> top_wall ca = 0) \<or> (b = toward 1 a \<and> right_wall ca = 0)
       \<or> (b = toward 2 a \<and> bottom_wall ca = 0) \<or> (b = toward 3 a \<and> left_wall ca = 0))"

definition passage :: "maze \<Rightarrow> coord \<Rightarrow> coord \<Rightarrow> bool" where
  "passage M a b = (open_to M a b \<and> open_to M b a)"

definition passages :: "int \<Rightarrow> int \<Rightarrow> maze \<Rightarrow> (coord \<times> coord) set" where
  "passages W H M = {(a, b). inside W H a \<and> inside W H b \<and> passage M a b}"

text \<open>The cells of the grid whose visited flag is set, and a grid all of whose cells exist.\<close>

definition marked :: "int \<Rightarrow> int \<Rightarrow> maze \<Rightarrow> coord set" where
  "marked W H M = {c. inside W H c \<and> (\<exists>a. M c = Some a \<and> visited a)}"

definition allocated :: "int \<Rightarrow> int \<Rightarrow> maze \<Rightarrow> bool" where
  "allocated W H M = (\<forall>c. inside W H c \<longrightarrow> M c \<noteq> None)"

text \<open>
  Before the doors are installed: a wall flag of a cell of the grid is cleared only
  towards another cell of the grid, and then the flag facing it is cleared too.
\<close>

definition paired :: "int \<Rightarrow> int \<Rightarrow> maze \<Rightarrow> bool" where
  "paired W H M = (\<forall>a b. inside W H a \<longrightarrow> open_to M a b \<longrightarrow> inside W H b \<and> open_to M b a)"

text \<open>
  A tree grown from one vertex by hanging a new vertex \<open>l\<close> on an old one \<open>p\<close>, with
  the edge between them in both directions; and a simple path from \<open>a\<close> to \<open>b\<close>: a
  list without repetition, from \<open>a\<close> to \<open>b\<close>, each entry joined to the next by an edge.
\<close>

inductive tree :: "'a set \<Rightarrow> ('a \<times> 'a) set \<Rightarrow> bool" where
  root: "tree {r} {}"
| grow: "tree V E \<Longrightarrow> p \<in> V \<Longrightarrow> l \<notin> V \<Longrightarrow> tree (insert l V) (E \<union> {(p, l), (l, p)})"

definition trail :: "('a \<times> 'a) set \<Rightarrow> 'a \<Rightarrow> 'a \<Rightarrow> 'a list \<Rightarrow> bool" where
  "trail E a b p =
    (p \<noteq> [] \<and> hd p = a \<and> last p = b \<and> distinct p \<and> successively (\<lambda>x y. (x, y) \<in> E) p)"

text \<open>
  What a call of \<^verbatim>\<open>GenerateMaze\<close> achieves, from the maze \<open>M\<close> to the maze
  \<open>M'\<close>: the marked cells with the passages form a tree, no mark is lost, and every
  neighbor of a newly marked cell is marked.
\<close>

definition carved :: "int \<Rightarrow> int \<Rightarrow> maze \<Rightarrow> maze \<Rightarrow> bool" where
  "carved W H M M' =
    (allocated W H M' \<and> paired W H M' \<and> tree (marked W H M') (passages W H M')
     \<and> marked W H M \<subseteq> marked W H M'
     \<and> (\<forall>x \<in> marked W H M' - marked W H M. set (GetNeighbors W H x) \<subseteq> marked W H M'))"

text \<open>
  The configuration the generator is meant for: the entrance and the exit are two
  different cells of the grid, and their doors are walls on the outside of the grid.
\<close>

definition well_formed :: "page \<Rightarrow> bool" where
  "well_formed g =
    (inside (WIDTH g) (HEIGHT g) (ENTRANCE_X g, ENTRANCE_Y g)
     \<and> inside (WIDTH g) (HEIGHT g) (STARTING_X g, STARTING_Y g)
     \<and> (ENTRANCE_X g, ENTRANCE_Y g) \<noteq> (STARTING_X g, STARTING_Y g)
     \<and> ENTER g < 4 \<and> EXIT g < 4
     \<and> \<not> inside (WIDTH g) (HEIGHT g) (toward (ENTER g) (ENTRANCE_X g, ENTRANCE_Y g))
     \<and> \<not> inside (WIDTH g) (HEIGHT g) (toward (EXIT g) (STARTING_X g, STARTING_Y g)))"

text \<open>
  The number of internal walls removed: each internal wall lies between a cell and the
  cell to its right or below it.
\<close>

definition removed_walls :: "int \<Rightarrow> int \<Rightarrow> maze \<Rightarrow> nat" where
  "removed_walls W H M =
    card {(a, b). (a, b) \<in> passages W H M \<and> (b = toward 1 a \<or> b = toward 2 a)}"

text \<open>The two openings that \<^verbatim>\<open>InstallDoors\<close> makes.\<close>

definition door :: "page \<Rightarrow> coord \<Rightarrow> coord \<Rightarrow> bool" where
  "door g a b =
    ((a = (ENTRANCE_X g, ENTRANCE_Y g) \<and> b = toward (ENTER g) a)
     \<or> (a = (STARTING_X g, STARTING_Y g) \<and> b = toward (EXIT g) a))"


subsection \<open>Predicates for the solver\<close>

text \<open>
  The number of cells of the grid whose visited flag is not set.
\<close>

definition unmarked :: "int \<Rightarrow> int \<Rightarrow> maze \<Rightarrow> nat" where
  "unmarked W H M = card ({c. inside W H c} - marked W H M)"

text \<open>
  The moves that \<^verbatim>\<open>GetNeighborAccess\<close> allows inside the grid, whatever the visited flags: from a
  cell to the cell on a side whose wall flag, in the first cell, is 0.
\<close>

definition steps :: "int \<Rightarrow> int \<Rightarrow> maze \<Rightarrow> (coord \<times> coord) set" where
  "steps W H M = {(a, b). inside W H a \<and> inside W H b \<and> open_to M a b}"

text \<open>
  What the solver appends to \<^verbatim>\<open>Solution_List\<close> when the search from \<open>c\<close> succeeds: a list
  from the cell \<open>E\<close> to \<open>c\<close>, in which every entry is reached from the next one by a
  move \<open>R\<close> inside the grid.
\<close>

definition route :: "int \<Rightarrow> int \<Rightarrow> (coord \<Rightarrow> coord \<Rightarrow> bool) \<Rightarrow> coord \<Rightarrow> coord \<Rightarrow> coord list \<Rightarrow> bool" where
  "route W H R E c p =
    (p \<noteq> [] \<and> hd p = E \<and> last p = c
     \<and> successively (\<lambda>x y. inside W H x \<and> inside W H y \<and> R y x) p)"

text \<open>
  Every cell marked since \<open>M\<close> has all the cells it can move to marked in \<open>M'\<close>.
\<close>

definition explored :: "int \<Rightarrow> int \<Rightarrow> (coord \<Rightarrow> coord \<Rightarrow> bool) \<Rightarrow> maze \<Rightarrow> maze \<Rightarrow> bool" where
  "explored W H R M M' =
    (\<forall>x \<in> marked W H M' - marked W H M. \<forall>n. inside W H n \<longrightarrow> R x n \<longrightarrow> n \<in> marked W H M')"

text \<open>
  What a search leaves as it was: all cells exist, the wall flags are those of the
  relation \<open>R\<close>, marks are only added, and the cell \<open>E\<close> is not marked by the search.
\<close>

definition kept :: "int \<Rightarrow> int \<Rightarrow> (coord \<Rightarrow> coord \<Rightarrow> bool) \<Rightarrow> coord \<Rightarrow> maze \<Rightarrow> maze \<Rightarrow> bool" where
  "kept W H R E M M' =
    (allocated W H M' \<and> (\<forall>a b. open_to M' a b = R a b) \<and> marked W H M \<subseteq> marked W H M'
     \<and> (E \<notin> marked W H M \<longrightarrow> E \<notin> marked W H M'))"

text \<open>
  The result \<open>r\<close> of a call of \<^verbatim>\<open>Solver\<close> at the cell \<open>c\<close> in the state \<open>s\<close>: on success
  a route from \<open>E\<close> to \<open>c\<close> has been appended and the counter has grown by its number of
  moves; on failure the list and the counter are unchanged, \<open>c\<close> is marked, and
  everything within reach of the newly marked cells is marked.
\<close>

definition search_ok ::
  "int \<Rightarrow> int \<Rightarrow> (coord \<Rightarrow> coord \<Rightarrow> bool) \<Rightarrow> coord \<Rightarrow> coord \<Rightarrow> solver_state \<Rightarrow> bool \<times> solver_state \<Rightarrow> bool" where
  "search_ok W H R E c s r =
    (kept W H R E (fst s) (fst (snd r))
     \<and> (if fst r
        then \<exists>p. fst (snd (snd r)) = fst (snd s) @ p \<and> route W H R E c p
               \<and> snd (snd (snd r)) + 1 = snd (snd s) + length p
        else snd (snd r) = snd s \<and> c \<in> marked W H (fst (snd r))
           \<and> explored W H R (fst s) (fst (snd r))
           \<and> (\<forall>n. inside W H n \<longrightarrow> R c n \<longrightarrow> n \<in> marked W H (fst (snd r)))))"

text \<open>
  The depth of recursion that a call of \<^verbatim>\<open>Solver\<close> at the cell \<open>c\<close> may need.
\<close>

definition budget :: "int \<Rightarrow> int \<Rightarrow> maze \<Rightarrow> coord \<Rightarrow> nat" where
  "budget W H M c = 2 * unmarked W H M + (if c \<in> marked W H M then 1 else 0)"

text \<open>
  The same for the loop over the neighbors \<open>ns\<close> of \<open>c\<close>.
\<close>

definition loop_ok ::
  "int \<Rightarrow> int \<Rightarrow> (coord \<Rightarrow> coord \<Rightarrow> bool) \<Rightarrow> coord \<Rightarrow> coord \<Rightarrow> coord list \<Rightarrow> solver_state
    \<Rightarrow> bool \<times> solver_state \<Rightarrow> bool" where
  "loop_ok W H R E c ns s r =
    (kept W H R E (fst s) (fst (snd r))
     \<and> (if fst r
        then \<exists>p. fst (snd (snd r)) = fst (snd s) @ p \<and> route W H R E c p
               \<and> snd (snd (snd r)) + 1 = snd (snd s) + length p
        else snd (snd r) = snd s \<and> set ns \<subseteq> marked W H (fst (snd r))
           \<and> explored W H R (fst s) (fst (snd r))))"

section \<open>The navigator: moves, jumps and the end of a session\<close>

lemma set_grid_coords: "set (grid_coords W H) = {c. inside W H c}"
  by (auto simp add: grid_coords_def inside_def)

lemma clear_visited_all:
  "\<forall>c \<in> set cs. M c \<noteq> None \<Longrightarrow>
   clear_visited cs M =
     (None, \<lambda>c. if c \<in> set cs then map_option (\<lambda>a. a\<lparr>visited := False\<rparr>) (M c) else M c)"
proof (induction cs arbitrary: M)
  case Nil
  then show ?case by simp
next
  case (Cons c cs)
  then obtain a where a: "M c = Some a" by auto
  have "\<forall>c' \<in> set cs. (M(c \<mapsto> a\<lparr>visited := False\<rparr>)) c' \<noteq> None"
    using Cons.prems by auto
  from Cons.IH [OF this]
  have "clear_visited cs (M(c \<mapsto> a\<lparr>visited := False\<rparr>)) =
     (None, \<lambda>c'. if c' \<in> set cs
        then map_option (\<lambda>a. a\<lparr>visited := False\<rparr>) ((M(c \<mapsto> a\<lparr>visited := False\<rparr>)) c')
        else (M(c \<mapsto> a\<lparr>visited := False\<rparr>)) c')" .
  moreover have "(\<lambda>c'. if c' \<in> set cs
        then map_option (\<lambda>a. a\<lparr>visited := False\<rparr>) ((M(c \<mapsto> a\<lparr>visited := False\<rparr>)) c')
        else (M(c \<mapsto> a\<lparr>visited := False\<rparr>)) c') =
     (\<lambda>c'. if c' \<in> set (c # cs) then map_option (\<lambda>a. a\<lparr>visited := False\<rparr>) (M c') else M c')"
    using a by (auto simp add: fun_eq_iff)
  ultimately show ?case
    using a by (simp del: fun_upd_apply)
qed


lemma JumpHere_unchanged:
  "Maze' s c = None \<or> (\<exists>a. Maze' s c = Some a \<and> \<not> visited a) \<or> ClearCurrentCell cf s \<noteq> None
    \<Longrightarrow> snd (JumpHere cf c s) = s"
  by (cases "Maze' s c"; cases "ClearCurrentCell cf s") (auto simp add: JumpHere_def)



lemma Move_unchanged:
  "CheckStart cf k s \<or> Maze' s (Current_Location s) = None
    \<or> (\<exists>a. Maze' s (Current_Location s) = Some a \<and> wall a \<noteq> 0)
    \<or> ClearCurrentCell cf s \<noteq> None
   \<Longrightarrow> snd (Move cf k wall step s) = s"
  by (cases "Maze' s (Current_Location s)"; cases "ClearCurrentCell cf s")
    (auto simp add: Move_def)

lemma Move_finish:
  assumes "\<not> CheckStart cf k s" and "Maze' s (Current_Location s) = Some a" and "wall a = 0"
    and "ClearCurrentCell cf s = None"
    and "Current_Location s = (End_X cf, End_Y cf)" and "k = Exit cf"
  shows "Move cf k wall step s =
    (None, s\<lparr>Current_Location := (- 1, - 1),
             livestats := Some (User_Moves s, Steps_to_Solve' cf, User_Jumps s)\<rparr>)"
  using assms by (simp add: Move_def CheckFinish_def ShowStats_def)







lemma grid21: "grid_coords 2 1 = [(0,0),(1,0)]"
  by (simp add: grid_coords_def upto.simps)

lemma load2: "snd (load_solver two_cells False) =
   \<lparr>Maze' = [(0, 0) \<mapsto> \<lparr>top_wall = 1, right_wall = 0, bottom_wall = 1, left_wall = 0,
                           visited = True\<rparr>,
             (1, 0) \<mapsto> \<lparr>top_wall = 1, right_wall = 0, bottom_wall = 1, left_wall = 0,
                           visited = False\<rparr>], Current_Location = (0,0), User_Moves = 0, User_Jumps = 0, showsplits = False, livestats = None\<rparr>"
  by (simp add: load_solver_def two_cells_def grid21 UpdatePosition_def assign_def has_element_def copy_setup_def inside_def fun_upd_twist)

lemmas nav_defs = MoveRight_def Move_def CheckStart_def CheckFinish_def ClearCurrentCell_def ShowStats_def UpdatePosition_def assign_def has_element_def inside_def copy_setup_def two_cells_def

lemma r1: "handle (copy_setup two_cells) Right (snd (load_solver two_cells False)) = 
 \<lparr>Maze' = [(0, 0) \<mapsto> \<lparr>top_wall = 1, right_wall = 0, bottom_wall = 1, left_wall = 0,
                           visited = True\<rparr>,
             (1, 0) \<mapsto> \<lparr>top_wall = 1, right_wall = 0, bottom_wall = 1, left_wall = 0,
                           visited = True\<rparr>], Current_Location = (1,0), User_Moves = 1, User_Jumps = 0, showsplits = False, livestats = None\<rparr>"
  unfolding load2 by (simp add: nav_defs)

lemma r2: "handle (copy_setup two_cells) Right (handle (copy_setup two_cells) Right (snd (load_solver two_cells False))) = 
 \<lparr>Maze' = [(0, 0) \<mapsto> \<lparr>top_wall = 1, right_wall = 0, bottom_wall = 1, left_wall = 0,
                           visited = True\<rparr>,
             (1, 0) \<mapsto> \<lparr>top_wall = 1, right_wall = 0, bottom_wall = 1, left_wall = 0,
                           visited = True\<rparr>], Current_Location = (-1,-1), User_Moves = 1, User_Jumps = 0, showsplits = False, livestats = Some (1,1,0)\<rparr>"
  unfolding r1 by (simp add: nav_defs)

lemma ClearCurrentCell_finished:
  "Current_Location s = (- 1, - 1) \<Longrightarrow> ClearCurrentCell cf s = Some TypeError"
  by (simp add: ClearCurrentCell_def has_element_def inside_def)

lemma handle_finished:
  assumes "Current_Location s = (- 1, - 1)"
  shows "handle cf a s = s"
proof -
  have clr: "ClearCurrentCell cf s \<noteq> None"
    using assms by (simp add: ClearCurrentCell_finished)
  have mv: "snd (Move cf k wall step s) = s" for k wall step
    by (rule Move_unchanged) (use clr in blast)
  have jp: "snd (JumpHere cf c s) = s" for c
    by (rule JumpHere_unchanged) (use clr in blast)
  show ?thesis
    by (cases a) (simp_all add: MoveUp_def MoveDown_def MoveLeft_def MoveRight_def mv jp)
qed

lemma fold_handle_finished:
  "Current_Location s = (- 1, - 1) \<Longrightarrow> fold (handle cf) as s = s"
  by (induction as) (simp_all add: handle_finished)

lemma move_in_Move:
  "k < 4 \<Longrightarrow> \<exists>step. move_in cf k = Move cf k (wall_of k) step"
proof -
  assume "k < 4"
  then consider "k = 0" | "k = 1" | "k = 2" | "k = 3" by linarith
  then show ?thesis
  proof cases
    case 1
    have "wall_of 0 = top_wall" by (simp add: wall_of_def fun_eq_iff)
    then show ?thesis using 1 by (auto simp add: move_in_def MoveUp_def)
  next
    case 2
    have "wall_of 1 = right_wall" by (simp add: wall_of_def fun_eq_iff)
    then show ?thesis using 2 by (auto simp add: move_in_def MoveRight_def)
  next
    case 3
    have "wall_of 2 = bottom_wall" by (simp add: wall_of_def fun_eq_iff)
    then show ?thesis using 3 by (auto simp add: move_in_def MoveDown_def)
  next
    case 4
    have "wall_of 3 = left_wall" by (simp add: wall_of_def fun_eq_iff)
    then show ?thesis using 4 by (auto simp add: move_in_def MoveLeft_def)
  qed
qed

text \<open>
  C8.  In a state where the player stands on a cell of the maze, a move in a direction
  in which that cell has its wall up returns without raising anything and leaves the
  whole state as it was: the current location, the move counter, the jump counter and
  the visited flag of every cell.
\<close>

theorem move_into_closed_wall_is_noop:
  assumes "Maze' s (Current_Location s) = Some a" and "k < 4" and "wall_of k a \<noteq> 0"
  shows "move_in cf k s = (None, s)"
proof -
  obtain step where mv: "move_in cf k = Move cf k (wall_of k) step"
    using move_in_Move [OF assms(2)] by blast
  show ?thesis
    unfolding mv using assms(1,3) by (simp add: Move_def)
qed

theorem move_into_closed_wall_is_noop_witness:
  "move_in (copy_setup two_cells) 0 (snd (load_solver two_cells False))
    = (None, snd (load_solver two_cells False))"
  by (rule move_into_closed_wall_is_noop [where a = "\<lparr>top_wall = 1, right_wall = 0,
        bottom_wall = 1, left_wall = 0, visited = True\<rparr>"])
    (simp_all add: load2 wall_of_def)

text \<open>
  C6.  When the player stands on the exit cell, distinct from the entrance cell, and the
  wall of that cell on the side numbered \<^verbatim>\<open>Exit\<close> is down, the move in that
  direction sets the current location to \<open>(-1, -1)\<close> and changes neither the maze nor
  the counters; from then on every sequence of moves and jumps leaves the state as it
  is, so the session finishes once and nothing changes afterwards.
\<close>

theorem finished_is_final:
  assumes "Current_Location s = (End_X cf, End_Y cf)"
    and "has_element cf (Current_Location s)"
    and "Maze' s (Current_Location s) = Some a"
    and "Exit cf < 4"
    and "wall_of (Exit cf) a = 0"
    and "(Start_X cf, Start_Y cf) \<noteq> (End_X cf, End_Y cf)"
  shows "\<exists>s'. move_in cf (Exit cf) s = (None, s')
      \<and> Current_Location s' = (- 1, - 1)
      \<and> Maze' s' = Maze' s \<and> User_Moves s' = User_Moves s \<and> User_Jumps s' = User_Jumps s
      \<and> (\<forall>as. fold (handle cf) as s' = s')"
proof -
  obtain step where mv: "move_in cf (Exit cf) = Move cf (Exit cf) (wall_of (Exit cf)) step"
    using move_in_Move [OF assms(4)] by blast
  have 1: "\<not> CheckStart cf (Exit cf) s"
    using assms(1,6) by (auto simp add: CheckStart_def)
  have 2: "ClearCurrentCell cf s = None"
    using assms(2,3) by (simp add: ClearCurrentCell_def)
  let ?s' = "s\<lparr>Current_Location := (- 1, - 1),
             livestats := Some (User_Moves s, Steps_to_Solve' cf, User_Jumps s)\<rparr>"
  have "move_in cf (Exit cf) s = (None, ?s')"
    unfolding mv
    by (rule Move_finish [where wall = "wall_of (Exit cf)", OF 1 assms(3) assms(5) 2 assms(1)])
      simp
  moreover have "\<forall>as. fold (handle cf) as ?s' = ?s'"
    by (simp add: fold_handle_finished)
  ultimately show ?thesis by simp
qed

theorem finished_is_final_witness:
  "\<exists>s'. move_in (copy_setup two_cells) 1
           (handle (copy_setup two_cells) Right (snd (load_solver two_cells False))) = (None, s')
      \<and> Current_Location s' = (- 1, - 1)
      \<and> User_Moves s' = 1 \<and> User_Jumps s' = 0
      \<and> (\<forall>as. fold (handle (copy_setup two_cells)) as s' = s')"
proof -
  let ?cf = "copy_setup two_cells"
  let ?s = "handle ?cf Right (snd (load_solver two_cells False))"
  let ?a = "\<lparr>top_wall = 1, right_wall = 0, bottom_wall = 1, left_wall = 0, visited = True\<rparr>"
  have e: "Exit ?cf = 1" by (simp add: copy_setup_def two_cells_def)
  have "\<exists>s'. move_in ?cf (Exit ?cf) ?s = (None, s')
      \<and> Current_Location s' = (- 1, - 1)
      \<and> Maze' s' = Maze' ?s \<and> User_Moves s' = User_Moves ?s \<and> User_Jumps s' = User_Jumps ?s
      \<and> (\<forall>as. fold (handle ?cf) as s' = s')"
    unfolding r1
    by (rule finished_is_final [where a = ?a])
      (simp_all add: copy_setup_def two_cells_def has_element_def inside_def wall_of_def)
  then show ?thesis
    unfolding e r1 by (elim exE conjE, intro exI conjI) simp_all
qed



section \<open>The shuffle\<close>

text \<open>
  C2.  The cell \<open>(1, 0)\<close> of a grid three cells wide and two high has three neighbors.
  Of the 27 sequences of draws, 4 leave the list in the order it had and 5 swap its
  first two entries: the orders are not equally likely.
\<close>

theorem shuffle_is_biased:
  "GetNeighbors 3 2 (1, 0) = [(2, 0), (1, 1), (0, 0)]
   \<and> length (shuffle_outcomes [(2, 0), (1, 1), (0, 0)]) = 27
   \<and> count_list (shuffle_outcomes [(2, 0), (1, 1), (0, 0)]) [(2, 0), (1, 1), (0, 0)] = 4
   \<and> count_list (shuffle_outcomes [(2, 0), (1, 1), (0, 0)]) [(1, 1), (2, 0), (0, 0)] = 5"
proof -
  have "GetNeighbors 3 2 (1, 0) = [(2, 0), (1, 1), (0, 0)]"
    by (simp add: GetNeighbors_def)
  moreover have "length (shuffle_outcomes [(2, 0), (1, 1), (0, 0)]) = 27"
    by code_simp
  moreover have
    "count_list (shuffle_outcomes [(2, 0), (1, 1), (0, 0)]) [(2, 0), (1, 1), (0, 0)] = 4"
    by code_simp
  moreover have
    "count_list (shuffle_outcomes [(2, 0), (1, 1), (0, 0)]) [(1, 1), (2, 0), (0, 0)] = 5"
    by code_simp
  ultimately show ?thesis by blast
qed

section \<open>A rejected call of LoadMaze\<close>








section \<open>The generator: carving a spanning tree\<close>

subsection \<open>Directions\<close>

lemma four_cases: "k < 4 \<Longrightarrow> (k = 0 \<Longrightarrow> P) \<Longrightarrow> (k = 1 \<Longrightarrow> P) \<Longrightarrow> (k = 2 \<Longrightarrow> P) \<Longrightarrow> (k = (3::nat) \<Longrightarrow> P) \<Longrightarrow> P"
  by (cases k rule: nat.exhaust) (auto simp add: numeral_eq_Suc less_Suc_eq_0_disj)

lemma opposite_less: "k < 4 \<Longrightarrow> opposite k < 4"
  by (simp add: opposite_def)

lemma opposite_opposite: "k < 4 \<Longrightarrow> opposite (opposite k) = k"
  by (erule four_cases) (simp_all add: opposite_def)

lemma toward_opposite: "k < 4 \<Longrightarrow> toward (opposite k) (toward k c) = c"
  by (erule four_cases) (simp_all add: opposite_def toward_def)

lemma toward_neq: "toward k c \<noteq> c"
  by (simp add: toward_def prod_eq_iff)

lemma toward_inject: "k < 4 \<Longrightarrow> j < 4 \<Longrightarrow> toward k c = toward j c \<Longrightarrow> k = j"
  by (erule four_cases; erule four_cases) (simp_all add: toward_def)

lemma toward_back: "k < 4 \<Longrightarrow> j < 4 \<Longrightarrow> toward j (toward k c) = c \<Longrightarrow> j = opposite k"
  by (erule four_cases; erule four_cases) (simp_all add: toward_def opposite_def prod_eq_iff)

lemma wall_of_open_side:
  "k < 4 \<Longrightarrow> j < 4 \<Longrightarrow> wall_of j (open_side k a) = (if j = k then 0 else wall_of j a)"
  by (erule four_cases; erule four_cases) (simp_all add: wall_of_def open_side_def)

lemma visited_open_side: "visited (open_side k a) = visited a"
  by (simp add: open_side_def)

lemma open_side_ge: "\<not> k < 4 \<Longrightarrow> open_side k a = a"
  by (simp add: open_side_def)

lemma open_to_iff:
  "open_to M a b \<longleftrightarrow> (\<exists>k<4. b = toward k a \<and> (\<exists>ca. M a = Some ca \<and> wall_of k ca = 0))"
proof
  assume "open_to M a b"
  then obtain ca where ca: "M a = Some ca"
    and d: "(b = toward 0 a \<and> wall_of 0 ca = 0) \<or> (b = toward 1 a \<and> wall_of 1 ca = 0)
       \<or> (b = toward 2 a \<and> wall_of 2 ca = 0) \<or> (b = toward 3 a \<and> wall_of 3 ca = 0)"
    by (auto simp add: open_to_def wall_of_def split: option.splits)
  have "(0::nat) < 4" "(1::nat) < 4" "(2::nat) < 4" "(3::nat) < 4" by simp_all
  with ca d show "\<exists>k<4. b = toward k a \<and> (\<exists>ca. M a = Some ca \<and> wall_of k ca = 0)"
    by metis
next
  assume "\<exists>k<4. b = toward k a \<and> (\<exists>ca. M a = Some ca \<and> wall_of k ca = 0)"
  then obtain k ca where k: "k < 4" "b = toward k a" "M a = Some ca" "wall_of k ca = 0"
    by blast
  from k(1) show "open_to M a b"
    by (rule four_cases) (use k in \<open>simp_all add: open_to_def wall_of_def\<close>)
qed

lemma open_to_assign:
  assumes "M a0 = Some c0"
  shows "open_to (M(a0 \<mapsto> open_side k c0)) a b
     \<longleftrightarrow> open_to M a b \<or> (a = a0 \<and> k < 4 \<and> b = toward k a0)"
proof (cases "a = a0")
  case False
  then show ?thesis by (simp add: open_to_def)
next
  case True
  show ?thesis
  proof (cases "k < 4")
    case False
    then show ?thesis using True assms by (simp add: open_side_ge open_to_def)
  next
    case k: True
    have "open_to (M(a0 \<mapsto> open_side k c0)) a0 b
       \<longleftrightarrow> (\<exists>j<4. b = toward j a0 \<and> wall_of j (open_side k c0) = 0)"
      by (simp add: open_to_iff)
    also have "\<dots> \<longleftrightarrow> (\<exists>j<4. b = toward j a0 \<and> (j = k \<or> wall_of j c0 = 0))"
      using k by (metis wall_of_open_side)
    also have "\<dots> \<longleftrightarrow> b = toward k a0 \<or> (\<exists>j<4. b = toward j a0 \<and> wall_of j c0 = 0)"
      using k by auto
    also have "\<dots> \<longleftrightarrow> open_to M a0 b \<or> b = toward k a0"
      using assms by (auto simp add: open_to_iff)
    finally show ?thesis using True k by simp
  qed
qed

subsection \<open>Neighbors\<close>

lemma GetNeighbors_iff:
  assumes "inside W H c"
  shows "n \<in> set (GetNeighbors W H c) \<longleftrightarrow> (\<exists>k<4. n = toward k c) \<and> inside W H n"
proof
  assume "n \<in> set (GetNeighbors W H c)"
  then consider "n = toward 0 c" "snd c \<noteq> 0" | "n = toward 1 c" "fst c < W - 1"
    | "n = toward 2 c" "snd c < H - 1" | "n = toward 3 c" "fst c \<noteq> 0"
    by (auto simp add: GetNeighbors_def Let_def toward_def split: if_splits)
  then show "(\<exists>k<4. n = toward k c) \<and> inside W H n"
  proof cases
    case 1
    have "inside W H n" using 1 assms by (simp add: inside_def toward_def)
    moreover have "(0::nat) < 4" by simp
    ultimately show ?thesis using 1(1) by blast
  next
    case 2
    have "inside W H n" using 2 assms by (simp add: inside_def toward_def)
    moreover have "(1::nat) < 4" by simp
    ultimately show ?thesis using 2(1) by blast
  next
    case 3
    have "inside W H n" using 3 assms by (simp add: inside_def toward_def)
    moreover have "(2::nat) < 4" by simp
    ultimately show ?thesis using 3(1) by blast
  next
    case 4
    have "inside W H n" using 4 assms by (simp add: inside_def toward_def)
    moreover have "(3::nat) < 4" by simp
    ultimately show ?thesis using 4(1) by blast
  qed
next
  assume r: "(\<exists>k<4. n = toward k c) \<and> inside W H n"
  then obtain k where k: "k < 4" "n = toward k c" by blast
  from k(1) show "n \<in> set (GetNeighbors W H c)"
    by (rule four_cases)
      (use k r assms in \<open>auto simp add: GetNeighbors_def Let_def toward_def inside_def\<close>)
qed

subsection \<open>The shuffle keeps the entries\<close>

lemma random_index_less: "0 < n \<Longrightarrow> fst (random_index n rnd) < n"
  by (cases rnd) simp_all

lemma set_ShuffleLoop: "set (fst (ShuffleLoop i xs rnd)) = set xs"
proof (induction i xs rnd rule: ShuffleLoop.induct)
  case (1 i neighbors rnd)
  show ?case
  proof (cases "i < length neighbors")
    case False
    then show ?thesis by (simp add: ShuffleLoop.simps)
  next
    case True
    obtain r rnd' where r: "random_index (length neighbors) rnd = (r, rnd')"
      by (cases "random_index (length neighbors) rnd")
    have "0 < length neighbors" using True by auto
    then have "r < length neighbors"
      using random_index_less [of "length neighbors" rnd] r by simp
    then have sw: "set (neighbors[i := neighbors ! r, r := neighbors ! i]) = set neighbors"
      using True by (simp add: set_swap)
    have "set (fst (ShuffleLoop (i + 1) (neighbors[i := neighbors ! r, r := neighbors ! i]) rnd'))
        = set (neighbors[i := neighbors ! r, r := neighbors ! i])"
      using "1.IH" [OF True r [symmetric] refl refl refl] by simp
    moreover have "ShuffleLoop i neighbors rnd
        = ShuffleLoop (i + 1) (neighbors[i := neighbors ! r, r := neighbors ! i]) rnd'"
      using True r by (subst ShuffleLoop.simps) simp
    ultimately show ?thesis using sw by simp
  qed
qed

lemma set_ShuffleNeighbors: "set (fst (ShuffleNeighbors xs rnd)) = set xs"
  by (simp add: ShuffleNeighbors_def set_ShuffleLoop)

subsection \<open>Assignments to cells\<close>

lemma open_side_0: "(\<lambda>a. a\<lparr>top_wall := 0\<rparr>) = open_side 0"
  and open_side_1: "(\<lambda>a. a\<lparr>right_wall := 0\<rparr>) = open_side 1"
  and open_side_2: "(\<lambda>a. a\<lparr>bottom_wall := 0\<rparr>) = open_side 2"
  and open_side_3: "(\<lambda>a. a\<lparr>left_wall := 0\<rparr>) = open_side 3"
  by (simp_all add: fun_eq_iff open_side_def)

lemma opposite_values:
  "opposite 0 = 2" "opposite 1 = 3" "opposite (Suc 0) = 3" "opposite 2 = 0" "opposite 3 = 1"
  by (simp_all add: opposite_def)

lemma RemoveWall_toward:
  assumes "k < 4"
  shows "RemoveWall M c (toward k c) =
    (case assign M c (open_side k) of Inl e \<Rightarrow> Inl e
     | Inr M1 \<Rightarrow> assign M1 (toward k c) (open_side (opposite k)))"
  using assms
  by (rule four_cases)
    (simp_all add: RemoveWall_def toward_def opposite_values open_side_0 open_side_1
      open_side_2 open_side_3 cong: sum.case_cong)

lemma RemoveWall_result:
  assumes "k < 4" and "M c = Some cc" and "M (toward k c) = Some cn"
  shows "RemoveWall M c (toward k c) =
    Inr (M(c \<mapsto> open_side k cc, toward k c \<mapsto> open_side (opposite k) cn))"
  using assms toward_neq [of k c]
  by (simp add: RemoveWall_toward assign_def)

lemma open_to_removed:
  assumes "k < 4" and "M c = Some cc" and "M (toward k c) = Some cn"
  shows "open_to (M(c \<mapsto> open_side k cc, toward k c \<mapsto> open_side (opposite k) cn)) a b
    \<longleftrightarrow> open_to M a b \<or> (a = c \<and> b = toward k c) \<or> (a = toward k c \<and> b = c)"
proof -
  let ?n = "toward k c"
  let ?M1 = "M(c \<mapsto> open_side k cc)"
  have n: "?M1 ?n = Some cn"
    using assms(3) toward_neq [of k c] by simp
  have "open_to (?M1(?n \<mapsto> open_side (opposite k) cn)) a b
      \<longleftrightarrow> open_to ?M1 a b \<or> (a = ?n \<and> opposite k < 4 \<and> b = toward (opposite k) ?n)"
    by (rule open_to_assign [where M = ?M1 and k = "opposite k", OF n])
  also have "\<dots> \<longleftrightarrow> open_to ?M1 a b \<or> (a = ?n \<and> b = c)"
    using assms(1) by (simp add: opposite_less toward_opposite)
  also have "open_to ?M1 a b \<longleftrightarrow> open_to M a b \<or> (a = c \<and> k < 4 \<and> b = ?n)"
    by (rule open_to_assign [where M = M and k = k, OF assms(2)])
  finally show ?thesis using assms(1) by blast
qed

lemma open_to_marked:
  assumes "M c = Some cc"
  shows "open_to (M(c \<mapsto> cc\<lparr>visited := v\<rparr>)) a b \<longleftrightarrow> open_to M a b"
  using assms by (cases "a = c") (simp_all add: open_to_def)

subsection \<open>Trees\<close>

lemma tree_finite: "tree V E \<Longrightarrow> finite V \<and> finite E"
  by (induction rule: tree.induct) simp_all

lemma tree_edges: "tree V E \<Longrightarrow> E \<subseteq> V \<times> V"
  by (induction rule: tree.induct) auto

lemma tree_sym: "tree V E \<Longrightarrow> sym E"
  by (induction rule: tree.induct) (auto simp add: sym_def)

lemma tree_nonempty: "tree V E \<Longrightarrow> V \<noteq> {}"
  by (induction rule: tree.induct) simp_all

lemma tree_card: "tree V E \<Longrightarrow> card E + 2 = 2 * card V"
proof (induction rule: tree.induct)
  case (root r)
  show ?case by simp
next
  case (grow V E p l)
  have sub: "E \<subseteq> V \<times> V" using grow.hyps(1) by (rule tree_edges)
  have fin: "finite V" "finite E" using tree_finite [OF grow.hyps(1)] by simp_all
  have new: "(p, l) \<notin> E" "(l, p) \<notin> E" "(p, l) \<noteq> (l, p)"
    using sub grow.hyps(2,3) by auto
  have "card (E \<union> {(p, l), (l, p)}) = card E + 2"
    using fin new by simp
  moreover have "card (insert l V) = card V + 1"
    using fin grow.hyps(3) by simp
  ultimately show ?case using grow.IH by simp
qed

lemma tree_connected: "tree V E \<Longrightarrow> a \<in> V \<Longrightarrow> b \<in> V \<Longrightarrow> (a, b) \<in> E\<^sup>*"
proof (induction arbitrary: a b rule: tree.induct)
  case (root r)
  then show ?case by simp
next
  case (grow V E p l)
  let ?E = "E \<union> {(p, l), (l, p)}"
  have old: "(x, y) \<in> ?E\<^sup>*" if "x \<in> V" "y \<in> V" for x y
    using grow.IH [OF that] by (rule rtrancl_mono [THEN subsetD, rotated]) blast
  have pl: "(p, l) \<in> ?E\<^sup>*" "(l, p) \<in> ?E\<^sup>*" by auto
  have to_l: "(x, l) \<in> ?E\<^sup>*" if "x \<in> insert l V" for x
  proof (cases "x = l")
    case True then show ?thesis by simp
  next
    case False
    with that have "x \<in> V" by simp
    from old [OF this grow.hyps(2)] pl(1) show ?thesis by (rule rtrancl_trans)
  qed
  have from_l: "(l, y) \<in> ?E\<^sup>*" if "y \<in> insert l V" for y
  proof (cases "y = l")
    case True then show ?thesis by simp
  next
    case False
    with that have "y \<in> V" by simp
    from pl(2) old [OF grow.hyps(2) this] show ?thesis by (rule rtrancl_trans)
  qed
  show ?case
  proof (cases "a = l \<or> b = l")
    case True
    then show ?thesis using to_l [OF grow.prems(1)] from_l [OF grow.prems(2)] by auto
  next
    case False
    then show ?thesis using grow.prems old by auto
  qed
qed

lemma trail_single: "trail E a a [a]"
  by (simp add: trail_def)

lemma trail_loop: "trail E a a p \<Longrightarrow> p = [a]"
proof -
  assume t: "trail E a a p"
  then obtain q where p: "p = a # q" by (cases p) (auto simp add: trail_def)
  show ?thesis
  proof (cases q)
    case Nil
    with p show ?thesis by simp
  next
    case (Cons x xs)
    with t p have "last q = a" "a \<notin> set q" by (auto simp add: trail_def)
    moreover have "last q \<in> set q" using Cons by simp
    ultimately show ?thesis by simp
  qed
qed

lemma trail_self: "\<exists>!q. trail E a a q"
  by (rule ex1I [of _ "[a]"]) (simp_all add: trail_single trail_loop)

lemma trail_mono: "trail E a b p \<Longrightarrow> E \<subseteq> E' \<Longrightarrow> trail E' a b p"
  unfolding trail_def by (auto elim: successively_mono)

lemma trail_rev: "sym E \<Longrightarrow> trail E a b p \<Longrightarrow> trail E b a (rev p)"
  unfolding trail_def
  by (auto simp add: hd_rev last_rev sym_def elim: successively_mono)

lemma trail_subset:
  assumes "trail E a b p" and "E \<subseteq> V \<times> V" and "a \<in> V"
  shows "set p \<subseteq> V"
proof -
  have "successively (\<lambda>x y. (x, y) \<in> E) p \<Longrightarrow> p \<noteq> [] \<Longrightarrow> hd p \<in> V \<Longrightarrow> set p \<subseteq> V" for p
  proof (induction p)
    case Nil
    then show ?case by simp
  next
    case (Cons x xs)
    show ?case
    proof (cases xs)
      case Nil
      then show ?thesis using Cons.prems by simp
    next
      case (Cons y ys)
      then have "(x, y) \<in> E" "successively (\<lambda>x y. (x, y) \<in> E) xs"
        using Cons.prems(1) by simp_all
      then have "set xs \<subseteq> V"
        using Cons.IH Cons assms(2) by auto
      then show ?thesis using Cons.prems(3) by simp
    qed
  qed
  then show ?thesis using assms(1,3) by (simp add: trail_def)
qed

text \<open>A leaf hanging on \<open>p\<close> is an end of every trail it lies on.\<close>

lemma leaf_is_end:
  assumes E: "E \<subseteq> V \<times> V" and l: "l \<notin> V"
    and t: "trail (E \<union> {(p, l), (l, p)}) a b q" and m: "l \<in> set q"
  shows "a = l \<or> b = l"
proof (rule ccontr)
  assume n: "\<not> (a = l \<or> b = l)"
  let ?P = "\<lambda>x y. (x, y) \<in> E \<union> {(p, l), (l, p)}"
  from m obtain xs ys where q: "q = xs @ l # ys" by (auto simp add: in_set_conv_decomp)
  have xs: "xs \<noteq> []" using t q n by (auto simp add: trail_def)
  have ys: "ys \<noteq> []" using t q n by (auto simp add: trail_def)
  have s: "successively ?P (xs @ l # ys)" using t q by (simp add: trail_def)
  then have 1: "?P (last xs) l" using xs by (simp add: successively_append_iff)
  have "successively ?P (l # ys)" using s by (simp add: successively_append_iff)
  then have 2: "?P l (hd ys)" using ys by (simp add: successively_Cons)
  have "last xs = p" using 1 E l by auto
  moreover have "hd ys = p" using 2 E l by auto
  moreover have "last xs \<in> set xs" "hd ys \<in> set ys" using xs ys by simp_all
  moreover have "set xs \<inter> set ys = {}" using t q by (auto simp add: trail_def)
  ultimately show False by auto
qed

lemma trail_without_leaf:
  assumes E: "E \<subseteq> V \<times> V" and l: "l \<notin> V"
    and t: "trail (E \<union> {(p, l), (l, p)}) a b q" and m: "l \<notin> set q"
  shows "trail E a b q"
proof -
  have "successively (\<lambda>x y. (x, y) \<in> E) q"
    using t m unfolding trail_def
    by (auto elim!: successively_mono)
  then show ?thesis using t by (simp add: trail_def)
qed

lemma trail_from_leaf:
  assumes E: "E \<subseteq> V \<times> V" and l: "l \<notin> V"
    and t: "trail (E \<union> {(p, l), (l, p)}) l b q" and b: "b \<noteq> l"
  obtains q' where "q = l # q'" and "trail E p b q'"
proof -
  let ?P = "\<lambda>x y. (x, y) \<in> E \<union> {(p, l), (l, p)}"
  from t obtain q' where q: "q = l # q'" by (cases q) (auto simp add: trail_def)
  have ne: "q' \<noteq> []" using t q b by (auto simp add: trail_def)
  have s: "?P l (hd q')" "successively ?P q'"
    using t q ne by (simp_all add: trail_def successively_Cons)
  have hd: "hd q' = p" using s(1) E l by auto
  have nl: "l \<notin> set q'" using t q by (simp add: trail_def)
  have "trail (E \<union> {(p, l), (l, p)}) p b q'"
    using t q ne hd s(2) by (simp add: trail_def)
  then have "trail E p b q'" using nl by (rule trail_without_leaf [OF E l])
  with q show thesis by (rule that)
qed

lemma tree_unique_trail: "tree V E \<Longrightarrow> a \<in> V \<Longrightarrow> b \<in> V \<Longrightarrow> \<exists>!q. trail E a b q"
proof (induction arbitrary: a b rule: tree.induct)
  case (root r)
  then have "a = r" "b = r" by simp_all
  then show ?case by (simp add: trail_self)
next
  case (grow V E p l)
  let ?E = "E \<union> {(p, l), (l, p)}"
  have E: "E \<subseteq> V \<times> V" using grow.hyps(1) by (rule tree_edges)
  have symE: "sym ?E" using tree_sym [OF tree.grow [OF grow.hyps]] .
  note l = grow.hyps(3)
  have inner: "\<exists>!q. trail ?E x y q" if "x \<in> V" "y \<in> V" for x y
  proof -
    from grow.IH [OF that] obtain q where q: "trail E x y q"
      and u: "\<And>q'. trail E x y q' \<Longrightarrow> q' = q" by blast
    have "trail ?E x y q" using q by (rule trail_mono) blast
    moreover have "q' = q" if t: "trail ?E x y q'" for q'
    proof -
      have "l \<notin> set q'"
        using leaf_is_end [OF E l t] \<open>x \<in> V\<close> \<open>y \<in> V\<close> l by blast
      then have "trail E x y q'" by (rule trail_without_leaf [OF E l t])
      then show ?thesis by (rule u)
    qed
    ultimately show ?thesis by blast
  qed
  have from_leaf: "\<exists>!q. trail ?E l y q" if "y \<in> V" for y
  proof -
    from grow.IH [OF grow.hyps(2) that] obtain q where q: "trail E p y q"
      and u: "\<And>q'. trail E p y q' \<Longrightarrow> q' = q" by blast
    have sub: "set q \<subseteq> V" using q E grow.hyps(2) by (rule trail_subset)
    have yl: "y \<noteq> l" using that l by blast
    have "trail ?E p y q" using q by (rule trail_mono) blast
    then have "trail ?E l y (l # q)"
      using sub l by (auto simp add: trail_def successively_Cons)
    moreover have "q' = l # q" if t: "trail ?E l y q'" for q'
    proof -
      from trail_from_leaf [OF E l t yl] obtain q'' where "q' = l # q''" "trail E p y q''"
        by blast
      then show ?thesis using u by simp
    qed
    ultimately show ?thesis by blast
  qed
  have to_leaf: "\<exists>!q. trail ?E x l q" if "x \<in> V" for x
  proof -
    from from_leaf [OF that] obtain q where q: "trail ?E l x q"
      and u: "\<And>q'. trail ?E l x q' \<Longrightarrow> q' = q" by blast
    have "trail ?E x l (rev q)" using symE q by (rule trail_rev)
    moreover have "q' = rev q" if t: "trail ?E x l q'" for q'
    proof -
      have "trail ?E l x (rev q')" using symE t by (rule trail_rev)
      then have "rev q' = q" by (rule u)
      then show ?thesis by (simp add: rev_swap)
    qed
    ultimately show ?thesis by blast
  qed
  show ?case
  proof (cases "a = l")
    case al: True
    show ?thesis
    proof (cases "b = l")
      case True
      then show ?thesis using al by (simp add: trail_self)
    next
      case False
      then show ?thesis using al from_leaf grow.prems(2) by simp
    qed
  next
    case al: False
    show ?thesis
    proof (cases "b = l")
      case True
      then show ?thesis using al to_leaf grow.prems(1) by simp
    next
      case False
      then show ?thesis using al inner grow.prems by simp
    qed
  qed
qed

subsection \<open>Marked cells and passages\<close>

lemma finite_grid: "finite {c. inside W H c}"
proof -
  have "{c. inside W H c} \<subseteq> {0..<W} \<times> {0..<H}"
    by (auto simp add: inside_def)
  then show ?thesis by (rule finite_subset) simp
qed

lemma marked_subset: "marked W H M \<subseteq> {c. inside W H c}"
  by (auto simp add: marked_def)

lemma unmarked_mono:
  "marked W H M \<subseteq> marked W H M' \<Longrightarrow>
   card ({c. inside W H c} - marked W H M') \<le> card ({c. inside W H c} - marked W H M)"
  by (rule card_mono) (auto simp add: finite_grid)

lemma unmarked_less:
  assumes "inside W H c" and "c \<notin> marked W H M" and "insert c (marked W H M) \<subseteq> marked W H M'"
  shows "card ({c. inside W H c} - marked W H M') < card ({c. inside W H c} - marked W H M)"
  by (rule psubset_card_mono) (use assms in \<open>auto simp add: finite_grid\<close>)

subsection \<open>Marking a cell\<close>

lemma mark_cell:
  assumes "M c = Some cc"
  shows "assign M c (\<lambda>a. a\<lparr>visited := True\<rparr>) = Inr (M(c \<mapsto> cc\<lparr>visited := True\<rparr>))"
  using assms by (simp add: assign_def)

lemma marked_mark:
  assumes "M c = Some cc" and "inside W H c"
  shows "marked W H (M(c \<mapsto> cc\<lparr>visited := True\<rparr>)) = insert c (marked W H M)"
  using assms by (auto simp add: marked_def)

lemma passages_mark:
  assumes "M c = Some cc"
  shows "passages W H (M(c \<mapsto> cc\<lparr>visited := v\<rparr>)) = passages W H M"
  using assms by (simp add: passages_def passage_def open_to_marked)

lemma paired_mark:
  assumes "M c = Some cc"
  shows "paired W H (M(c \<mapsto> cc\<lparr>visited := v\<rparr>)) = paired W H M"
  using assms by (simp add: paired_def open_to_marked)

lemma allocated_upd: "allocated W H M \<Longrightarrow> allocated W H (M(c \<mapsto> a))"
  by (simp add: allocated_def)

subsection \<open>Removing a wall\<close>

lemma marked_removed:
  assumes "M c = Some cc" and "M n = Some cn" and "c \<noteq> n"
  shows "marked W H (M(c \<mapsto> open_side k cc, n \<mapsto> open_side j cn)) = marked W H M"
  using assms by (auto simp add: marked_def visited_open_side)

lemma passages_removed:
  assumes "k < 4" and "M c = Some cc" and "M (toward k c) = Some cn"
    and "inside W H c" and "inside W H (toward k c)"
  shows "passages W H (M(c \<mapsto> open_side k cc, toward k c \<mapsto> open_side (opposite k) cn))
    = passages W H M \<union> {(c, toward k c), (toward k c, c)}"
  unfolding passages_def passage_def open_to_removed [OF assms(1-3)]
  using assms(4,5) by auto

lemma paired_removed:
  assumes "k < 4" and "M c = Some cc" and "M (toward k c) = Some cn"
    and "inside W H c" and "inside W H (toward k c)" and "paired W H M"
  shows "paired W H (M(c \<mapsto> open_side k cc, toward k c \<mapsto> open_side (opposite k) cn))"
  unfolding paired_def open_to_removed [OF assms(1-3)]
  using assms(4-6) unfolding paired_def by blast

subsection \<open>The recursion\<close>

lemma allocatedD: "allocated W H M \<Longrightarrow> inside W H c \<Longrightarrow> \<exists>a. M c = Some a"
  unfolding allocated_def by blast

lemma carved_refl:
  "allocated W H M \<Longrightarrow> paired W H M \<Longrightarrow> tree (marked W H M) (passages W H M) \<Longrightarrow> carved W H M M"
  by (simp add: carved_def)

lemma carved_trans:
  assumes "carved W H M1 M2" and "carved W H M2 M3"
  shows "carved W H M1 M3"
proof -
  have sub: "marked W H M1 \<subseteq> marked W H M2" "marked W H M2 \<subseteq> marked W H M3"
    using assms by (simp_all add: carved_def)
  have "set (GetNeighbors W H x) \<subseteq> marked W H M3" if "x \<in> marked W H M3 - marked W H M1" for x
  proof (cases "x \<in> marked W H M2")
    case True
    with that have "set (GetNeighbors W H x) \<subseteq> marked W H M2"
      using assms(1) by (simp add: carved_def)
    with sub(2) show ?thesis by blast
  next
    case False
    with that show ?thesis using assms(2) by (simp add: carved_def)
  qed
  then show ?thesis
    using assms sub by (simp add: carved_def)
qed

lemma carved_same_marks:
  assumes "carved W H M1 M2" and "marked W H M0 = marked W H M1"
  shows "carved W H M0 M2"
  using assms by (simp add: carved_def)

lemma GenerateMaze_loop_correct:
  assumes call: "\<And>n M rnd. allocated W H M \<Longrightarrow> paired W H M \<Longrightarrow> inside W H n \<Longrightarrow>
        n \<notin> marked W H M \<Longrightarrow> tree (insert n (marked W H M)) (passages W H M) \<Longrightarrow>
        card ({c. inside W H c} - marked W H M) \<le> d \<Longrightarrow>
        \<exists>M' rnd'. call n (M, rnd) = Inr (M', rnd') \<and> carved W H M M' \<and> n \<in> marked W H M'"
    and "allocated W H M" and "paired W H M" and "inside W H c" and "c \<in> marked W H M"
    and "tree (marked W H M) (passages W H M)"
    and "set ns \<subseteq> set (GetNeighbors W H c)"
    and "card ({c. inside W H c} - marked W H M) \<le> d"
  shows "\<exists>M' rnd'. GenerateMaze_loop call c ns (M, rnd) = Inr (M', rnd')
      \<and> carved W H M M' \<and> set ns \<subseteq> marked W H M'"
  using assms(2-)
proof (induction ns arbitrary: M rnd)
  case Nil
  then show ?case by (simp add: carved_refl)
next
  case (Cons n ns)
  have n_nb: "n \<in> set (GetNeighbors W H c)" and ns_nb: "set ns \<subseteq> set (GetNeighbors W H c)"
    using Cons.prems(6) by simp_all
  from n_nb obtain k where k: "k < 4" "n = toward k c" and n_in: "inside W H n"
    using GetNeighbors_iff [OF Cons.prems(3)] by blast
  from allocatedD [OF Cons.prems(1,3)] obtain cc where cc: "M c = Some cc" by blast
  from allocatedD [OF Cons.prems(1) n_in] obtain cn where cn: "M n = Some cn" by blast
  show ?case
  proof (cases "visited cn")
    case True
    then have n_marked: "n \<in> marked W H M" using cn n_in by (simp add: marked_def)
    from Cons.IH [OF Cons.prems(1-5) ns_nb Cons.prems(7)]
    obtain M' rnd' where r: "GenerateMaze_loop call c ns (M, rnd) = Inr (M', rnd')"
      "carved W H M M'" "set ns \<subseteq> marked W H M'" by blast
    have "GenerateMaze_loop call c (n # ns) (M, rnd) = Inr (M', rnd')"
      using cn True r(1) by simp
    moreover have "n \<in> marked W H M'" using n_marked r(2) by (auto simp add: carved_def)
    ultimately show ?thesis using r(2,3) by simp
  next
    case False
    then have n_new: "n \<notin> marked W H M" using cn by (simp add: marked_def)
    let ?M1 = "M(c \<mapsto> open_side k cc, n \<mapsto> open_side (opposite k) cn)"
    have cn': "M (toward k c) = Some cn" and n_in': "inside W H (toward k c)"
      using cn n_in k(2) by simp_all
    have rw: "RemoveWall M c n = Inr ?M1"
      using RemoveWall_result [OF k(1) cc cn'] k(2) by simp
    have c_ne: "c \<noteq> n" using k(2) toward_neq [of k c] by simp
    have m1: "marked W H ?M1 = marked W H M"
      using cc cn c_ne by (rule marked_removed)
    have p1: "passages W H ?M1 = passages W H M \<union> {(c, n), (n, c)}"
      using passages_removed [OF k(1) cc cn' Cons.prems(3) n_in'] k(2) by simp
    have a1: "allocated W H ?M1"
      using Cons.prems(1) by (simp add: allocated_upd)
    have pr1: "paired W H ?M1"
      using paired_removed [OF k(1) cc cn' Cons.prems(3) n_in' Cons.prems(2)] k(2) by simp
    have t1: "tree (insert n (marked W H ?M1)) (passages W H ?M1)"
      unfolding m1 p1 using Cons.prems(5,4) n_new by (rule tree.grow)
    have n1: "n \<notin> marked W H ?M1" using n_new m1 by simp
    have d1: "card ({c. inside W H c} - marked W H ?M1) \<le> d"
      using Cons.prems(7) m1 by simp
    from call [OF a1 pr1 n_in n1 t1 d1, of "rnd"]
    obtain M2 rnd2 where r2: "call n (?M1, rnd) = Inr (M2, rnd2)" "carved W H ?M1 M2"
      "n \<in> marked W H M2" by blast
    have c2: "carved W H M M2" using r2(2) m1 [symmetric] by (rule carved_same_marks)
    have sub2: "marked W H M \<subseteq> marked W H M2" using c2 by (simp add: carved_def)
    have pre: "allocated W H M2" "paired W H M2" "tree (marked W H M2) (passages W H M2)"
      using c2 by (simp_all add: carved_def)
    have cm2: "c \<in> marked W H M2" using Cons.prems(4) sub2 by blast
    have d2: "card ({c. inside W H c} - marked W H M2) \<le> d"
      using unmarked_mono [OF sub2] Cons.prems(7) by simp
    from Cons.IH [OF pre(1,2) Cons.prems(3) cm2 pre(3) ns_nb d2, of rnd2]
    obtain M' rnd' where r: "GenerateMaze_loop call c ns (M2, rnd2) = Inr (M', rnd')"
      "carved W H M2 M'" "set ns \<subseteq> marked W H M'" by blast
    have "GenerateMaze_loop call c (n # ns) (M, rnd) = Inr (M', rnd')"
      using cn False rw r2(1) r(1) by simp
    moreover have "carved W H M M'" using c2 r(2) by (rule carved_trans)
    moreover have "n \<in> marked W H M'" using r2(3) r(2) by (auto simp add: carved_def)
    ultimately show ?thesis using r(3) by simp
  qed
qed

lemma GenerateMaze_correct:
  assumes "allocated W H M" and "paired W H M" and "inside W H c" and "c \<notin> marked W H M"
    and "tree (insert c (marked W H M)) (passages W H M)"
    and "card ({c. inside W H c} - marked W H M) \<le> d"
  shows "\<exists>M' rnd'. GenerateMaze d W H c (M, rnd) = Inr (M', rnd')
      \<and> carved W H M M' \<and> c \<in> marked W H M'"
  using assms
proof (induction d arbitrary: c M rnd)
  case 0
  have "c \<in> {c. inside W H c} - marked W H M" using "0.prems"(3,4) by simp
  moreover have "{c. inside W H c} - marked W H M = {}"
    using "0.prems"(6) finite_grid [of W H] by simp
  ultimately show ?case by simp
next
  case (Suc d)
  from allocatedD [OF Suc.prems(1,3)] obtain cc where cc: "M c = Some cc" by blast
  let ?M1 = "M(c \<mapsto> cc\<lparr>visited := True\<rparr>)"
  let ?sh = "ShuffleNeighbors (GetNeighbors W H c) rnd"
  have m1: "marked W H ?M1 = insert c (marked W H M)"
    using cc Suc.prems(3) by (rule marked_mark)
  have a1: "allocated W H ?M1" using Suc.prems(1) by (rule allocated_upd)
  have pr1: "paired W H ?M1" using Suc.prems(2) cc by (simp add: paired_mark)
  have t1: "tree (marked W H ?M1) (passages W H ?M1)"
    using Suc.prems(5) cc by (simp add: m1 passages_mark)
  have c1: "c \<in> marked W H ?M1" by (simp add: m1)
  have "card ({c. inside W H c} - marked W H ?M1) < card ({c. inside W H c} - marked W H M)"
    by (rule unmarked_less [OF Suc.prems(3,4)]) (simp add: m1)
  then have d1: "card ({c. inside W H c} - marked W H ?M1) \<le> d"
    using Suc.prems(6) by simp
  have nb: "set (fst ?sh) \<subseteq> set (GetNeighbors W H c)"
    by (simp add: set_ShuffleNeighbors)
  have "\<exists>M' rnd'. GenerateMaze_loop (GenerateMaze d W H) c (fst ?sh) (?M1, snd ?sh) = Inr (M', rnd')
      \<and> carved W H ?M1 M' \<and> set (fst ?sh) \<subseteq> marked W H M'"
    by (rule GenerateMaze_loop_correct [where d = d, OF Suc.IH a1 pr1 Suc.prems(3) c1 t1 nb d1])
  then obtain M' rnd' where
    r: "GenerateMaze_loop (GenerateMaze d W H) c (fst ?sh) (?M1, snd ?sh) = Inr (M', rnd')"
      "carved W H ?M1 M'" "set (fst ?sh) \<subseteq> marked W H M'" by blast
  have run: "GenerateMaze (Suc d) W H c (M, rnd) = Inr (M', rnd')"
    using cc r(1) by (simp add: mark_cell Let_def)
  have sub: "marked W H ?M1 \<subseteq> marked W H M'" using r(2) by (simp add: carved_def)
  have cl: "set (GetNeighbors W H x) \<subseteq> marked W H M'" if "x \<in> marked W H M' - marked W H M" for x
  proof (cases "x = c")
    case True
    then show ?thesis using r(3) by (simp add: set_ShuffleNeighbors)
  next
    case False
    with that have "x \<in> marked W H M' - marked W H ?M1" by (simp add: m1)
    then show ?thesis using r(2) by (simp add: carved_def)
  qed
  have "carved W H M M'"
    using r(2) sub cl unfolding carved_def m1 by blast
  moreover have "c \<in> marked W H M'" using sub m1 by blast
  ultimately show ?case using run by blast
qed

subsection \<open>The allocated grid\<close>

lemma fold_new_cells:
  "fold (\<lambda>j M'. M'((i, j) \<mapsto> v)) js M0 c
    = (if fst c = i \<and> snd c \<in> set js then Some v else M0 c)"
proof (induction js arbitrary: M0)
  case Nil
  show ?case by simp
next
  case (Cons j js)
  have step: "fold (\<lambda>j M'. M'((i, j) \<mapsto> v)) (j # js) M0
      = fold (\<lambda>j M'. M'((i, j) \<mapsto> v)) js (M0((i, j) \<mapsto> v))"
    by (simp only: fold_simps o_apply)
  show ?case unfolding step Cons.IH by (auto simp add: prod_eq_iff)
qed

lemma new_column_apply:
  "new_column H i M c
    = (if fst c = i then (if 0 \<le> snd c \<and> snd c < H then Some new_cell else None) else M c)"
  by (auto simp add: new_column_def fold_new_cells)

lemma fold_new_column:
  "fold (new_column H) is M c
    = (if fst c \<in> set is then (if 0 \<le> snd c \<and> snd c < H then Some new_cell else None)
       else M c)"
proof (induction "is" arbitrary: M)
  case Nil
  show ?case by simp
next
  case (Cons i "is")
  have step: "fold (new_column H) (i # is) M = fold (new_column H) is (new_column H i M)"
    by (simp only: fold_simps o_apply)
  show ?case unfolding step Cons.IH by (auto simp add: new_column_apply)
qed

lemma allocate_inside: "inside W H c \<Longrightarrow> allocate W H M c = Some new_cell"
  by (simp add: allocate_def fold_new_column inside_def)

lemma allocated_allocate: "allocated W H (allocate W H M)"
  by (simp add: allocated_def allocate_inside del: split_paired_All)

lemma marked_allocate: "marked W H (allocate W H M) = {}"
  by (auto simp add: marked_def allocate_inside new_cell_def)

lemma open_to_allocate: "inside W H a \<Longrightarrow> \<not> open_to (allocate W H M) a b"
  by (simp add: open_to_def allocate_inside new_cell_def)

lemma passages_allocate: "passages W H (allocate W H M) = {}"
  by (auto simp add: passages_def passage_def open_to_allocate)

lemma paired_allocate: "paired W H (allocate W H M)"
  unfolding paired_def using open_to_allocate by blast

subsection \<open>The grid is connected\<close>

lemma interval_induct:
  fixes r j :: int
  assumes base: "P r" and r: "lo \<le> r" "r < hi" and j: "lo \<le> j" "j < hi"
    and up: "\<And>i. lo \<le> i \<Longrightarrow> i + 1 < hi \<Longrightarrow> P i \<Longrightarrow> P (i + 1)"
    and down: "\<And>i. lo \<le> i - 1 \<Longrightarrow> i < hi \<Longrightarrow> P i \<Longrightarrow> P (i - 1)"
  shows "P j"
proof (cases "r \<le> j")
  case True
  then have "j < hi \<longrightarrow> P j"
  proof (induction j rule: int_ge_induct)
    case base
    show ?case using assms(1) by simp
  next
    case (step i)
    show ?case
    proof
      assume "i + 1 < hi"
      moreover from this step.IH have "P i" by simp
      moreover have "lo \<le> i" using step.hyps r(1) by simp
      ultimately show "P (i + 1)" using up by blast
    qed
  qed
  then show ?thesis using j(2) by simp
next
  case False
  then have "j \<le> r" by simp
  then have "lo \<le> j \<longrightarrow> P j"
  proof (induction j rule: int_le_induct)
    case base
    show ?case using assms(1) by simp
  next
    case (step i)
    show ?case
    proof
      assume "lo \<le> i - 1"
      moreover from this step.IH have "P i" by simp
      moreover have "i < hi" using step.hyps r(2) by simp
      ultimately show "P (i - 1)" using down by blast
    qed
  qed
  then show ?thesis using j(1) by simp
qed

lemma neighbor_in:
  assumes "inside W H c" and "k < 4" and "inside W H (toward k c)"
  shows "toward k c \<in> set (GetNeighbors W H c)"
  using assms GetNeighbors_iff [OF assms(1)] by blast

lemma grid_closed:
  assumes root: "root \<in> S" "inside W H root"
    and closed: "\<And>x. x \<in> S \<Longrightarrow> inside W H x \<Longrightarrow> set (GetNeighbors W H x) \<subseteq> S"
    and c: "inside W H c"
  shows "c \<in> S"
proof -
  have three: "(1::nat) < 4" "(3::nat) < 4" "(2::nat) < 4" "(0::nat) < 4" by simp_all
  have row: "(x, snd root) \<in> S" if x: "0 \<le> x" "x < W" for x
  proof (rule interval_induct [where P = "\<lambda>i. (i, snd root) \<in> S" and r = "fst root"
        and lo = 0 and hi = W])
    show "(fst root, snd root) \<in> S" using root(1) by simp
    show "0 \<le> fst root" "fst root < W" using root(2) by (simp_all add: inside_def)
    show "0 \<le> x" "x < W" using x by simp_all
  next
    fix i assume i: "0 \<le> i" "i + 1 < W" "(i, snd root) \<in> S"
    have in1: "inside W H (i, snd root)" using i root(2) by (simp add: inside_def)
    have "inside W H (toward 1 (i, snd root))" using i root(2) by (simp add: inside_def toward_def)
    from neighbor_in [OF in1 three(1) this] closed [OF i(3) in1]
    show "(i + 1, snd root) \<in> S" by (auto simp add: toward_def)
  next
    fix i assume i: "0 \<le> i - 1" "i < W" "(i, snd root) \<in> S"
    have in1: "inside W H (i, snd root)" using i root(2) by (simp add: inside_def)
    have "inside W H (toward 3 (i, snd root))" using i root(2) by (simp add: inside_def toward_def)
    from neighbor_in [OF in1 three(2) this] closed [OF i(3) in1]
    show "(i - 1, snd root) \<in> S" by (auto simp add: toward_def)
  qed
  have cx: "0 \<le> fst c" "fst c < W" and cy: "0 \<le> snd c" "snd c < H"
    using c by (simp_all add: inside_def)
  have "(fst c, snd c) \<in> S"
  proof (rule interval_induct [where P = "\<lambda>i. (fst c, i) \<in> S" and r = "snd root"
        and lo = 0 and hi = H])
    show "(fst c, snd root) \<in> S" using row cx by simp
    show "0 \<le> snd root" "snd root < H" using root(2) by (simp_all add: inside_def)
    show "0 \<le> snd c" "snd c < H" using cy by simp_all
  next
    fix i assume i: "0 \<le> i" "i + 1 < H" "(fst c, i) \<in> S"
    have in1: "inside W H (fst c, i)" using i cx by (simp add: inside_def)
    have "inside W H (toward 2 (fst c, i))" using i cx by (simp add: inside_def toward_def)
    from neighbor_in [OF in1 three(3) this] closed [OF i(3) in1]
    show "(fst c, i + 1) \<in> S" by (auto simp add: toward_def)
  next
    fix i assume i: "0 \<le> i - 1" "i < H" "(fst c, i) \<in> S"
    have in1: "inside W H (fst c, i)" using i cx by (simp add: inside_def)
    have "inside W H (toward 0 (fst c, i))" using i cx by (simp add: inside_def toward_def)
    from neighbor_in [OF in1 three(4) this] closed [OF i(3) in1]
    show "(fst c, i - 1) \<in> S" by (auto simp add: toward_def)
  qed
  then show ?thesis by simp
qed

subsection \<open>The carving from the exit cell\<close>

lemma card_grid: "0 \<le> W \<Longrightarrow> 0 \<le> H \<Longrightarrow> card {c. inside W H c} = nat (W * H)"
proof -
  assume "0 \<le> W" "0 \<le> H"
  have "{c. inside W H c} = {0..<W} \<times> {0..<H}"
    by (auto simp add: inside_def)
  then have "card {c. inside W H c} = nat W * nat H"
    by (simp add: card_cartesian_product)
  then show ?thesis using \<open>0 \<le> W\<close> \<open>0 \<le> H\<close> by (simp add: nat_mult_distrib)
qed

lemma carve_all:
  assumes root: "inside W H root" and d: "nat (W * H) \<le> d"
  shows "\<exists>M' rnd'. GenerateMaze d W H root (allocate W H M, rnd) = Inr (M', rnd')
    \<and> allocated W H M' \<and> paired W H M'
    \<and> marked W H M' = {c. inside W H c}
    \<and> tree {c. inside W H c} (passages W H M')"
proof -
  let ?M0 = "allocate W H M"
  have W: "0 \<le> W" "0 \<le> H" using root by (simp_all add: inside_def)
  have t0: "tree (insert root (marked W H ?M0)) (passages W H ?M0)"
    by (simp add: marked_allocate passages_allocate tree.root)
  have d0: "card ({c. inside W H c} - marked W H ?M0) \<le> d"
    using d card_grid [OF W] by (simp add: marked_allocate)
  have n0: "root \<notin> marked W H ?M0" by (simp add: marked_allocate)
  from GenerateMaze_correct [OF allocated_allocate paired_allocate root n0 t0 d0, of rnd]
  obtain M' rnd' where r: "GenerateMaze d W H root (?M0, rnd) = Inr (M', rnd')"
    "carved W H ?M0 M'" "root \<in> marked W H M'" by blast
  have cl: "set (GetNeighbors W H x) \<subseteq> marked W H M'" if "x \<in> marked W H M'" for x
    using r(2) that by (simp add: carved_def marked_allocate)
  have "c \<in> marked W H M'" if "inside W H c" for c
    using r(3) root cl that by (rule grid_closed)
  then have all: "marked W H M' = {c. inside W H c}"
    using marked_subset [of W H M'] by blast
  show ?thesis
    using r(1,2) all by (auto simp add: carved_def)
qed

subsection \<open>Counting the removed walls\<close>

lemma passages_sym: "(a, b) \<in> passages W H M \<longleftrightarrow> (b, a) \<in> passages W H M"
  by (auto simp add: passages_def passage_def)

lemma passages_toward:
  assumes "(a, b) \<in> passages W H M"
  obtains k where "k < 4" and "b = toward k a"
  using assms unfolding passages_def passage_def open_to_iff by blast

lemma passages_finite: "finite (passages W H M)"
proof -
  have "passages W H M \<subseteq> {c. inside W H c} \<times> {c. inside W H c}"
    by (auto simp add: passages_def)
  then show ?thesis by (rule finite_subset) (simp add: finite_grid)
qed

lemma toward_1_3: "b = toward 3 a \<longleftrightarrow> a = toward 1 b"
  and toward_0_2: "b = toward 0 a \<longleftrightarrow> a = toward 2 b"
  by (auto simp add: toward_def prod_eq_iff)

lemma toward_distinct:
  "toward 1 a \<noteq> toward 3 a" "toward 1 a \<noteq> toward 0 a"
  "toward 2 a \<noteq> toward 3 a" "toward 2 a \<noteq> toward 0 a"
  by (simp_all add: toward_def prod_eq_iff)

lemma card_passages: "card (passages W H M) = 2 * removed_walls W H M"
proof -
  let ?E = "passages W H M"
  let ?P = "{(a, b). (a, b) \<in> ?E \<and> (b = toward 1 a \<or> b = toward 2 a)}"
  let ?N = "{(a, b). (a, b) \<in> ?E \<and> (b = toward 3 a \<or> b = toward 0 a)}"
  have fin: "finite ?P" "finite ?N"
    by (rule finite_subset [OF _ passages_finite [of W H M]], blast)+
  have mem_P: "(a, b) \<in> ?P \<longleftrightarrow> (a, b) \<in> ?E \<and> (b = toward 1 a \<or> b = toward 2 a)" for a b
    by simp
  have mem_N: "(a, b) \<in> ?N \<longleftrightarrow> (a, b) \<in> ?E \<and> (b = toward 3 a \<or> b = toward 0 a)" for a b
    by simp
  have split: "(a, b) \<in> ?P \<or> (a, b) \<in> ?N" if "(a, b) \<in> ?E" for a b
  proof -
    from that obtain k where k: "k < 4" "b = toward k a" by (rule passages_toward)
    from k(1) show ?thesis
      unfolding mem_P mem_N by (rule four_cases) (use k(2) that in blast)+
  qed
  have un: "?E = ?P \<union> ?N"
  proof (rule set_eqI)
    fix x :: "coord \<times> coord"
    obtain a b where x: "x = (a, b)" by (cases x)
    show "x \<in> ?E \<longleftrightarrow> x \<in> ?P \<union> ?N"
      unfolding x Un_iff using split [of a b] mem_P [of a b] mem_N [of a b] by blast
  qed
  have dis: "?P \<inter> ?N = {}"
  proof (rule equals0I)
    fix x :: "coord \<times> coord"
    obtain a b where x: "x = (a, b)" by (cases x)
    assume "x \<in> ?P \<inter> ?N"
    then have "(b = toward 1 a \<or> b = toward 2 a) \<and> (b = toward 3 a \<or> b = toward 0 a)"
      unfolding x Int_iff mem_P mem_N by blast
    then show False using toward_distinct [of a] by metis
  qed
  have conv: "?N = ?P\<inverse>"
  proof (rule set_eqI)
    fix x :: "coord \<times> coord"
    obtain a b where x: "x = (a, b)" by (cases x)
    have "(a, b) \<in> ?N \<longleftrightarrow> (b, a) \<in> ?P"
      unfolding mem_P mem_N
      using passages_sym [of a b W H M] toward_1_3 [of b a] toward_0_2 [of b a] by blast
    then show "x \<in> ?N \<longleftrightarrow> x \<in> ?P\<inverse>"
      unfolding x converse_iff .
  qed
  have "card ?E = card ?P + card ?N"
    using card_Un_disjoint [OF fin dis] un by simp
  also have "card ?N = card ?P"
    unfolding conv by (rule card_inverse)
  finally show ?thesis
    by (simp add: removed_walls_def)
qed

subsection \<open>The doors\<close>

lemma InstallDoors_result:
  assumes wf: "well_formed g" and al: "allocated (WIDTH g) (HEIGHT g) (Maze g)"
  obtains M where "InstallDoors g = Inr (g\<lparr>Maze := M\<rparr>)"
    and "\<And>a b. open_to M a b \<longleftrightarrow> open_to (Maze g) a b \<or> door g a b"
    and "allocated (WIDTH g) (HEIGHT g) M"
proof -
  let ?e = "(ENTRANCE_X g, ENTRANCE_Y g)" and ?x = "(STARTING_X g, STARTING_Y g)"
  from wf have e: "inside (WIDTH g) (HEIGHT g) ?e" and x: "inside (WIDTH g) (HEIGHT g) ?x"
    and ne: "?e \<noteq> ?x" and k: "ENTER g < 4" "EXIT g < 4"
    by (simp_all add: well_formed_def)
  from allocatedD [OF al e] obtain ce where ce: "Maze g ?e = Some ce" by blast
  from allocatedD [OF al x] obtain cx where cx: "Maze g ?x = Some cx" by blast
  let ?M1 = "(Maze g)(?e \<mapsto> open_side (ENTER g) ce)"
  let ?M2 = "?M1(?x \<mapsto> open_side (EXIT g) cx)"
  have xe: "?x \<noteq> ?e" using ne by (rule not_sym)
  have cx1: "?M1 ?x = Some cx" unfolding fun_upd_other [OF xe] by (rule cx)
  have run: "InstallDoors g = Inr (g\<lparr>Maze := ?M2\<rparr>)"
    using ce cx1 k by (simp add: InstallDoors_def assign_def del: fun_upd_apply)
  have op: "open_to ?M2 a b \<longleftrightarrow> open_to (Maze g) a b \<or> door g a b" for a b
  proof -
    have "open_to ?M2 a b \<longleftrightarrow> open_to ?M1 a b \<or> (a = ?x \<and> EXIT g < 4 \<and> b = toward (EXIT g) ?x)"
      by (rule open_to_assign [where M = ?M1, OF cx1])
    also have "open_to ?M1 a b
        \<longleftrightarrow> open_to (Maze g) a b \<or> (a = ?e \<and> ENTER g < 4 \<and> b = toward (ENTER g) ?e)"
      by (rule open_to_assign [where M = "Maze g", OF ce])
    finally have "open_to ?M2 a b \<longleftrightarrow>
        (open_to (Maze g) a b \<or> (a = ?e \<and> ENTER g < 4 \<and> b = toward (ENTER g) ?e))
        \<or> (a = ?x \<and> EXIT g < 4 \<and> b = toward (EXIT g) ?x)" .
    then show ?thesis unfolding door_def using k by blast
  qed
  have "allocated (WIDTH g) (HEIGHT g) ?M2"
    using al by (intro allocated_upd)
  with run op show thesis by (rule that)
qed

lemma door_outside:
  "well_formed g \<Longrightarrow> door g a b \<Longrightarrow> inside (WIDTH g) (HEIGHT g) a \<and> \<not> inside (WIDTH g) (HEIGHT g) b"
  by (auto simp add: well_formed_def door_def)

subsection \<open>The generated grid\<close>

lemma BuildMaze_result:
  assumes wf: "well_formed g" and d: "nat (WIDTH g * HEIGHT g) \<le> depth"
  obtains M rnd where "BuildMaze depth g = Inr (g\<lparr>Maze := M, Math_random := rnd\<rparr>)"
    and "allocated (WIDTH g) (HEIGHT g) M"
    and "tree {c. inside (WIDTH g) (HEIGHT g) c} (passages (WIDTH g) (HEIGHT g) M)"
    and "\<And>a b. inside (WIDTH g) (HEIGHT g) a \<Longrightarrow>
          open_to M a b \<longleftrightarrow> (inside (WIDTH g) (HEIGHT g) b \<and> open_to M b a) \<or> door g a b"
proof -
  let ?W = "WIDTH g" and ?H = "HEIGHT g"
  from wf have root: "inside ?W ?H (STARTING_X g, STARTING_Y g)"
    by (simp add: well_formed_def)
  from carve_all [OF root d, of "Maze g" "Math_random g"]
  obtain M' rnd' where r: "GenerateMaze depth ?W ?H (STARTING_X g, STARTING_Y g)
        (allocate ?W ?H (Maze g), Math_random g) = Inr (M', rnd')"
    and al: "allocated ?W ?H M'" and pr: "paired ?W ?H M'"
    and tr: "tree {c. inside ?W ?H c} (passages ?W ?H M')" by blast
  let ?g1 = "g\<lparr>Maze := M', Math_random := rnd'\<rparr>"
  have wf1: "well_formed ?g1" using wf by (simp add: well_formed_def)
  have al1: "allocated (WIDTH ?g1) (HEIGHT ?g1) (Maze ?g1)" using al by simp
  from InstallDoors_result [OF wf1 al1]
  obtain M where i: "InstallDoors ?g1 = Inr (?g1\<lparr>Maze := M\<rparr>)"
    and op: "\<And>a b. open_to M a b \<longleftrightarrow> open_to (Maze ?g1) a b \<or> door ?g1 a b"
    and alM: "allocated (WIDTH ?g1) (HEIGHT ?g1) M" by blast
  have dg: "door ?g1 a b = door g a b" for a b by (simp add: door_def)
  have op': "open_to M a b \<longleftrightarrow> open_to M' a b \<or> door g a b" for a b
    using op [of a b] dg by simp
  have out: "door g a b \<Longrightarrow> inside ?W ?H a \<and> \<not> inside ?W ?H b" for a b
    using wf by (rule door_outside)
  have run: "BuildMaze depth g = Inr (g\<lparr>Maze := M, Math_random := rnd'\<rparr>)"
    using r i by (simp add: BuildMaze_def Let_def)
  have same: "passages ?W ?H M = passages ?W ?H M'"
    unfolding passages_def passage_def op' using out by blast
  have sides: "open_to M a b \<longleftrightarrow> (inside ?W ?H b \<and> open_to M b a) \<or> door g a b"
    if a: "inside ?W ?H a" for a b
  proof -
    have 1: "open_to M' a b \<Longrightarrow> inside ?W ?H b \<and> open_to M' b a"
      using pr a unfolding paired_def by blast
    have 2: "inside ?W ?H b \<Longrightarrow> open_to M' b a \<Longrightarrow> open_to M' a b"
      using pr unfolding paired_def by blast
    show ?thesis
      unfolding op' using 1 2 out [of b a] a by blast
  qed
  show thesis
    by (rule that [OF run]) (use alM tr same sides in simp_all)
qed

text \<open>
  C1.  For every well-formed configuration (so the width and the height are at least 1
  and the entrance is not the exit) and a call stack that allows a depth of
  \<open>WIDTH * HEIGHT\<close>, whatever the random draws: the allocation, \<^verbatim>\<open>GenerateMaze\<close>
  from the exit cell and \<^verbatim>\<open>InstallDoors\<close> complete; the number of internal walls
  removed is \<open>WIDTH * HEIGHT - 1\<close>; every cell of the grid is reachable from every
  other through passages; and exactly one simple path of passages joins any two cells.
\<close>

theorem generated_maze_is_spanning_tree:
  assumes "well_formed g" and "nat (WIDTH g * HEIGHT g) \<le> depth"
  shows "\<exists>g'. BuildMaze depth g = Inr g'
    \<and> removed_walls (WIDTH g) (HEIGHT g) (Maze g') + 1 = nat (WIDTH g * HEIGHT g)
    \<and> (\<forall>a b. inside (WIDTH g) (HEIGHT g) a \<longrightarrow> inside (WIDTH g) (HEIGHT g) b \<longrightarrow>
          (a, b) \<in> (passages (WIDTH g) (HEIGHT g) (Maze g'))\<^sup>*
          \<and> (\<exists>!p. trail (passages (WIDTH g) (HEIGHT g) (Maze g')) a b p))"
proof (rule BuildMaze_result [OF assms])
  let ?W = "WIDTH g" and ?H = "HEIGHT g"
  fix M rnd
  assume run: "BuildMaze depth g = Inr (g\<lparr>Maze := M, Math_random := rnd\<rparr>)"
    and tr: "tree {c. inside ?W ?H c} (passages ?W ?H M)"
  have nonneg: "0 \<le> ?W" "0 \<le> ?H"
    using assms(1) by (simp_all add: well_formed_def inside_def)
  have "card (passages ?W ?H M) + 2 = 2 * card {c. inside ?W ?H c}"
    using tr by (rule tree_card)
  then have count: "removed_walls ?W ?H M + 1 = nat (?W * ?H)"
    by (simp add: card_passages card_grid [OF nonneg])
  have conn: "(a, b) \<in> (passages ?W ?H M)\<^sup>*" if "inside ?W ?H a" "inside ?W ?H b" for a b
    by (rule tree_connected [OF tr]) (simp_all add: that)
  have uniq: "\<exists>!p. trail (passages ?W ?H M) a b p" if "inside ?W ?H a" "inside ?W ?H b" for a b
    by (rule tree_unique_trail [OF tr]) (simp_all add: that)
  have mz: "Maze (g\<lparr>Maze := M, Math_random := rnd\<rparr>) = M" by simp
  show ?thesis
  proof (intro exI conjI allI impI)
    show "BuildMaze depth g = Inr (g\<lparr>Maze := M, Math_random := rnd\<rparr>)" by (rule run)
    show "removed_walls ?W ?H (Maze (g\<lparr>Maze := M, Math_random := rnd\<rparr>)) + 1
        = nat (?W * ?H)"
      unfolding mz by (rule count)
  next
    fix a b assume "inside ?W ?H a" "inside ?W ?H b"
    then show "(a, b) \<in> (passages ?W ?H (Maze (g\<lparr>Maze := M, Math_random := rnd\<rparr>)))\<^sup>*"
      unfolding mz by (rule conn)
  next
    fix a b assume "inside ?W ?H a" "inside ?W ?H b"
    then show "\<exists>!p. trail (passages ?W ?H (Maze (g\<lparr>Maze := M, Math_random := rnd\<rparr>))) a b p"
      unfolding mz by (rule uniq)
  qed
qed

theorem generated_maze_is_spanning_tree_witness:
  "\<exists>g'. BuildMaze 2 two_cells = Inr g'
    \<and> removed_walls 2 1 (Maze g') + 1 = 2
    \<and> (\<forall>a b. inside 2 1 a \<longrightarrow> inside 2 1 b \<longrightarrow>
          (a, b) \<in> (passages 2 1 (Maze g'))\<^sup>* \<and> (\<exists>!p. trail (passages 2 1 (Maze g')) a b p))"
proof -
  have 1: "well_formed two_cells"
    by (simp add: well_formed_def two_cells_def inside_def toward_def)
  have 2: "nat (WIDTH two_cells * HEIGHT two_cells) \<le> 2"
    by (simp add: two_cells_def)
  have 3: "WIDTH two_cells = 2" "HEIGHT two_cells = 1"
    by (simp_all add: two_cells_def)
  from generated_maze_is_spanning_tree [OF 1 2] show ?thesis
    unfolding 3 by simp
qed




section \<open>The solver: a depth-first search for the exit cell\<close>

subsection \<open>The accessible neighbors\<close>

lemma on_edge:
  assumes "inside W H c"
  shows "snd c \<noteq> 0 \<longleftrightarrow> inside W H (toward 0 c)"
    and "fst c \<noteq> W - 1 \<longleftrightarrow> inside W H (toward 1 c)"
    and "snd c \<noteq> H - 1 \<longleftrightarrow> inside W H (toward 2 c)"
    and "fst c \<noteq> 0 \<longleftrightarrow> inside W H (toward 3 c)"
  using assms by (auto simp add: inside_def toward_def)

lemma accessible_result:
  assumes "allocated W H M"
  shows "accessible M w (inside W H n) n
    = Inr (if w = 0 \<and> inside W H n \<and> n \<notin> marked W H M then [n] else [])"
proof (cases "w = 0 \<and> inside W H n")
  case False
  then show ?thesis by (auto simp add: accessible_def)
next
  case True
  then obtain b where b: "M n = Some b" using allocatedD [OF assms] by blast
  have "n \<in> marked W H M \<longleftrightarrow> visited b" using True b by (simp add: marked_def)
  then show ?thesis using True b by (simp add: accessible_def)
qed

lemma GetNeighborAccess_result:
  assumes al: "allocated W H M" and c: "inside W H c"
  obtains ns where "GetNeighborAccess W H M c = Inr ns"
    and "\<And>n. n \<in> set ns \<longleftrightarrow> inside W H n \<and> open_to M c n \<and> n \<notin> marked W H M"
proof -
  from allocatedD [OF al c] obtain a where a: "M c = Some a" by blast
  let ?l = "\<lambda>k. if wall_of k a = 0 \<and> inside W H (toward k c) \<and> toward k c \<notin> marked W H M
                then [toward k c] else []"
  have t: "(fst c, snd c - 1) = toward 0 c" "(fst c + 1, snd c) = toward 1 c"
    "(fst c, snd c + 1) = toward 2 c" "(fst c - 1, snd c) = toward 3 c"
    by (simp_all add: toward_def)
  have w: "top_wall a = wall_of 0 a" "right_wall a = wall_of 1 a"
    "bottom_wall a = wall_of 2 a" "left_wall a = wall_of 3 a"
    by (simp_all add: wall_of_def)
  have run: "GetNeighborAccess W H M c = Inr (?l 0 @ ?l 1 @ ?l 2 @ ?l 3)"
    by (simp add: GetNeighborAccess_def Let_def a t w on_edge [OF c] accessible_result [OF al])
  have mem: "n \<in> set (?l 0 @ ?l 1 @ ?l 2 @ ?l 3)
      \<longleftrightarrow> inside W H n \<and> open_to M c n \<and> n \<notin> marked W H M" for n
  proof
    assume "n \<in> set (?l 0 @ ?l 1 @ ?l 2 @ ?l 3)"
    then consider "n \<in> set (?l 0)" | "n \<in> set (?l 1)" | "n \<in> set (?l 2)" | "n \<in> set (?l 3)"
      by auto
    then have "\<exists>k. k < 4 \<and> n = toward k c \<and> wall_of k a = 0 \<and> inside W H (toward k c)
        \<and> toward k c \<notin> marked W H M"
    proof cases
      case 1
      then have "n = toward 0 c \<and> wall_of 0 a = 0 \<and> inside W H (toward 0 c)
          \<and> toward 0 c \<notin> marked W H M"
        by (simp split: if_splits)
      then show ?thesis by (intro exI [of _ 0]) simp
    next
      case 2
      then have "n = toward 1 c \<and> wall_of 1 a = 0 \<and> inside W H (toward 1 c)
          \<and> toward 1 c \<notin> marked W H M"
        by (simp split: if_splits)
      then show ?thesis by (intro exI [of _ 1]) simp
    next
      case 3
      then have "n = toward 2 c \<and> wall_of 2 a = 0 \<and> inside W H (toward 2 c)
          \<and> toward 2 c \<notin> marked W H M"
        by (simp split: if_splits)
      then show ?thesis by (intro exI [of _ 2]) simp
    next
      case 4
      then have "n = toward 3 c \<and> wall_of 3 a = 0 \<and> inside W H (toward 3 c)
          \<and> toward 3 c \<notin> marked W H M"
        by (simp split: if_splits)
      then show ?thesis by (intro exI [of _ 3]) simp
    qed
    then obtain k where k: "k < 4" "n = toward k c" "wall_of k a = 0"
      "inside W H (toward k c)" "toward k c \<notin> marked W H M" by (elim exE conjE)
    have "\<exists>k<4. n = toward k c \<and> (\<exists>ca. M c = Some ca \<and> wall_of k ca = 0)"
      using k(1-3) a by (intro exI [of _ k] conjI exI [of _ a])
    then have "open_to M c n" by (simp only: open_to_iff)
    then show "inside W H n \<and> open_to M c n \<and> n \<notin> marked W H M"
      using k(4,5) unfolding k(2) by simp
  next
    assume r: "inside W H n \<and> open_to M c n \<and> n \<notin> marked W H M"
    then have "\<exists>k<4. n = toward k c \<and> (\<exists>ca. M c = Some ca \<and> wall_of k ca = 0)"
      by (simp only: open_to_iff)
    then obtain k where k: "k < 4" "n = toward k c" "wall_of k a = 0"
      using a by auto
    from k(1) show "n \<in> set (?l 0 @ ?l 1 @ ?l 2 @ ?l 3)"
      by (rule four_cases) (use k(2,3) r in simp_all)
  qed
  show thesis by (rule that [OF run mem])
qed

subsection \<open>What a search keeps\<close>

lemma kept_refl: "allocated W H M \<Longrightarrow> \<forall>a b. open_to M a b = R a b \<Longrightarrow> kept W H R E M M"
  by (simp add: kept_def)

lemma kept_trans: "kept W H R E M1 M2 \<Longrightarrow> kept W H R E M2 M3 \<Longrightarrow> kept W H R E M1 M3"
  unfolding kept_def by blast

lemma explored_trans:
  assumes "explored W H R M1 M2" and "explored W H R M2 M3"
    and "marked W H M2 \<subseteq> marked W H M3"
  shows "explored W H R M1 M3"
  unfolding explored_def
proof (intro ballI allI impI)
  fix x n assume x: "x \<in> marked W H M3 - marked W H M1" and n: "inside W H n" "R x n"
  show "n \<in> marked W H M3"
  proof (cases "x \<in> marked W H M2")
    case True
    with x have "x \<in> marked W H M2 - marked W H M1" by simp
    with assms(1) n have "n \<in> marked W H M2" unfolding explored_def by blast
    with assms(3) show ?thesis by blast
  next
    case False
    with x have "x \<in> marked W H M3 - marked W H M2" by simp
    with assms(2) n show ?thesis unfolding explored_def by blast
  qed
qed

lemma unmarked_le:
  "marked W H M \<subseteq> marked W H M' \<Longrightarrow> unmarked W H M' \<le> unmarked W H M"
  unfolding unmarked_def by (rule unmarked_mono)

lemma unmarked_lt:
  "inside W H c \<Longrightarrow> c \<notin> marked W H M \<Longrightarrow> c \<in> marked W H M' \<Longrightarrow>
   marked W H M \<subseteq> marked W H M' \<Longrightarrow> unmarked W H M' < unmarked W H M"
  unfolding unmarked_def by (rule unmarked_less) simp_all

lemma budget_mono:
  assumes "inside W H c" and "marked W H M \<subseteq> marked W H M'"
  shows "budget W H M' c \<le> budget W H M c"
proof (cases "c \<in> marked W H M'")
  case False
  then have "c \<notin> marked W H M" using assms(2) by blast
  with False show ?thesis using unmarked_le [OF assms(2)] by (simp add: budget_def)
next
  case True
  show ?thesis
  proof (cases "c \<in> marked W H M")
    case True
    with \<open>c \<in> marked W H M'\<close> show ?thesis
      using unmarked_le [OF assms(2)] by (simp add: budget_def)
  next
    case False
    from unmarked_lt [OF assms(1) False True assms(2)] show ?thesis
      using True False by (simp add: budget_def)
  qed
qed

lemma route_single: "route W H R E E [E]"
  by (simp add: route_def)

lemma route_step:
  assumes "route W H R E n p" and "inside W H n" and "inside W H c" and "R c n"
  shows "route W H R E c (p @ [c])"
  using assms by (simp add: route_def successively_append_iff)

subsection \<open>The recursion of the solver\<close>

lemma Solver_loop_correct:
  assumes call: "\<And>n M sol st. allocated W H M \<Longrightarrow> \<forall>a b. open_to M a b = R a b \<Longrightarrow>
         inside W H n \<Longrightarrow> budget W H M n < d \<Longrightarrow>
         \<exists>r. call n (M, sol, st) = Inr r \<and> search_ok W H R E n (M, sol, st) r"
    and al: "allocated W H M" and walls: "\<forall>a b. open_to M a b = R a b"
    and c: "inside W H c"
    and ns: "\<forall>n \<in> set ns. inside W H n \<and> R c n \<and> budget W H M n < d"
  shows "\<exists>r. Solver_loop call c ns (M, sol, st) = Inr r \<and> loop_ok W H R E c ns (M, sol, st) r"
  using al walls ns
proof (induction ns arbitrary: M)
  case Nil
  have "loop_ok W H R E c [] (M, sol, st) (False, (M, sol, st))"
    using kept_refl [OF Nil(1) Nil(2)] by (simp add: loop_ok_def explored_def)
  then show ?case by simp
next
  case (Cons n ns)
  have n: "inside W H n" "R c n" "budget W H M n < d" using Cons.prems(3) by simp_all
  from call [OF Cons.prems(1) Cons.prems(2) n(1) n(3)]
  obtain r1 where r1: "call n (M, sol, st) = Inr r1"
    and ok1: "search_ok W H R E n (M, sol, st) r1" by blast
  obtain f1 M1 sol1 st1 where r1_eq: "r1 = (f1, M1, sol1, st1)" by (cases r1) auto
  have k1: "kept W H R E M M1" using ok1 by (simp add: search_ok_def r1_eq)
  show ?case
  proof (cases f1)
    case True
    from ok1 True obtain p where p: "sol1 = sol @ p" "route W H R E n p"
      "st1 + 1 = st + length p"
      by (auto simp add: search_ok_def r1_eq)
    have run: "Solver_loop call c (n # ns) (M, sol, st) = Inr (True, (M1, sol1 @ [c], st1 + 1))"
      using True by (simp add: r1 r1_eq)
    have "route W H R E c (p @ [c])" by (rule route_step [OF p(2) n(1) c n(2)])
    moreover have "sol1 @ [c] = sol @ (p @ [c])" using p(1) by simp
    moreover have "(st1 + 1) + 1 = st + length (p @ [c])" using p(3) by simp
    ultimately have "loop_ok W H R E c (n # ns) (M, sol, st) (True, (M1, sol1 @ [c], st1 + 1))"
      unfolding loop_ok_def using k1 by (simp only: fst_conv snd_conv if_True) blast
    with run show ?thesis by blast
  next
    case False
    from ok1 False have same: "sol1 = sol" "st1 = st" and nm: "n \<in> marked W H M1"
      and ex1: "explored W H R M M1"
      by (simp_all add: search_ok_def r1_eq)
    have al1: "allocated W H M1" and walls1: "\<forall>a b. open_to M1 a b = R a b"
      and sub1: "marked W H M \<subseteq> marked W H M1"
      using k1 unfolding kept_def by blast+
    have ns1: "\<forall>m \<in> set ns. inside W H m \<and> R c m \<and> budget W H M1 m < d"
    proof
      fix m assume m: "m \<in> set ns"
      then have *: "inside W H m" "R c m" "budget W H M m < d" using Cons.prems(3) by simp_all
      from budget_mono [OF *(1) sub1] *(3) have "budget W H M1 m < d" by simp
      with * show "inside W H m \<and> R c m \<and> budget W H M1 m < d" by simp
    qed
    from Cons.IH [OF al1 walls1 ns1]
    obtain r2 where r2: "Solver_loop call c ns (M1, sol, st) = Inr r2"
      and ok2: "loop_ok W H R E c ns (M1, sol, st) r2" by blast
    have run: "Solver_loop call c (n # ns) (M, sol, st) = Inr r2"
      using False by (simp add: r1 r1_eq same r2)
    have k2: "kept W H R E M1 (fst (snd r2))" using ok2 by (simp add: loop_ok_def)
    have k: "kept W H R E M (fst (snd r2))" by (rule kept_trans [OF k1 k2])
    have sub2: "marked W H M1 \<subseteq> marked W H (fst (snd r2))"
      using k2 unfolding kept_def by blast
    have "loop_ok W H R E c (n # ns) (M, sol, st) r2"
    proof (cases "fst r2")
      case True
      with ok2 k show ?thesis by (simp add: loop_ok_def)
    next
      case False
      with ok2 have a: "snd (snd r2) = (sol, st)" "set ns \<subseteq> marked W H (fst (snd r2))"
        "explored W H R M1 (fst (snd r2))"
        by (simp_all add: loop_ok_def)
      have "explored W H R M (fst (snd r2))" by (rule explored_trans [OF ex1 a(3) sub2])
      moreover have "set (n # ns) \<subseteq> marked W H (fst (snd r2))"
        using a(2) nm sub2 by auto
      ultimately show ?thesis using False k a(1) by (simp add: loop_ok_def)
    qed
    with run show ?thesis by blast
  qed
qed

lemma Solver_correct:
  assumes "allocated W H M" and "\<forall>a b. open_to M a b = R a b" and "inside W H c"
    and "budget W H M c < d"
  shows "\<exists>r. Solver d W H E c (M, sol, st) = Inr r \<and> search_ok W H R E c (M, sol, st) r"
  using assms
proof (induction d arbitrary: M c sol st)
  case 0
  then show ?case by simp
next
  case (Suc d)
  note al = Suc.prems(1) and walls = Suc.prems(2) and c = Suc.prems(3) and fuel = Suc.prems(4)
  show ?case
  proof (cases "c = E")
    case True
    have run: "Solver (Suc d) W H E c (M, sol, st) = Inr (True, (M, sol @ [c], st))"
      using True by simp
    have "search_ok W H R E c (M, sol, st) (True, (M, sol @ [c], st))"
      unfolding search_ok_def using kept_refl [OF al walls] route_single [of W H R E] True
      by (simp only: fst_conv snd_conv if_True) auto
    with run show ?thesis by blast
  next
    case False
    then have ne: "\<not> (fst c = fst E \<and> snd c = snd E)" by (simp add: prod_eq_iff)
    from allocatedD [OF al c] obtain a where a: "M c = Some a" by blast
    let ?M1 = "M(c \<mapsto> a\<lparr>visited := True\<rparr>)"
    have al1: "allocated W H ?M1" by (rule allocated_upd [OF al])
    have walls1: "\<forall>x y. open_to ?M1 x y = R x y"
      using walls open_to_marked [where M = M and c = c and cc = a and v = True] a by simp
    have m1: "marked W H ?M1 = insert c (marked W H M)" using a c by (rule marked_mark)
    have fuel1: "2 * unmarked W H ?M1 < d"
    proof (cases "c \<in> marked W H M")
      case True
      then have "marked W H ?M1 = marked W H M" using m1 by auto
      then have "unmarked W H ?M1 = unmarked W H M" by (simp add: unmarked_def)
      with fuel True show ?thesis by (simp add: budget_def)
    next
      case False
      have "unmarked W H ?M1 < unmarked W H M"
        by (rule unmarked_lt [OF c False]) (simp_all add: m1 subset_insertI)
      with fuel False show ?thesis by (simp add: budget_def)
    qed
    show ?thesis
    proof (rule GetNeighborAccess_result [OF al1 c])
      fix ns
      assume g: "GetNeighborAccess W H ?M1 c = Inr ns"
        and mem: "\<And>n. n \<in> set ns \<longleftrightarrow> inside W H n \<and> open_to ?M1 c n \<and> n \<notin> marked W H ?M1"
      have pre: "\<forall>n \<in> set ns. inside W H n \<and> R c n \<and> budget W H ?M1 n < d"
      proof
        fix n assume "n \<in> set ns"
        then have *: "inside W H n" "open_to ?M1 c n" "n \<notin> marked W H ?M1" using mem by blast+
        from *(3) fuel1 have "budget W H ?M1 n < d" by (simp add: budget_def)
        with * walls1 show "inside W H n \<and> R c n \<and> budget W H ?M1 n < d" by blast
      qed
      have "\<exists>r. Solver_loop (Solver d W H E) c ns (?M1, sol, st) = Inr r
                \<and> loop_ok W H R E c ns (?M1, sol, st) r"
        by (rule Solver_loop_correct [where d = d, OF Suc.IH al1 walls1 c pre])
      then obtain r where r: "Solver_loop (Solver d W H E) c ns (?M1, sol, st) = Inr r"
        and ok: "loop_ok W H R E c ns (?M1, sol, st) r" by blast
      have mk: "assign M c (\<lambda>a. a\<lparr>visited := True\<rparr>) = Inr ?M1"
        using a by (rule mark_cell)
      have run: "Solver (Suc d) W H E c (M, sol, st) = Inr r"
        by (simp only: Solver.simps ne if_False fst_conv snd_conv mk sum.case g r)
      have k1: "kept W H R E ?M1 (fst (snd r))" using ok by (simp add: loop_ok_def)
      have sub1: "marked W H ?M1 \<subseteq> marked W H (fst (snd r))"
        using k1 unfolding kept_def by blast
      have k0: "kept W H R E M ?M1"
        unfolding kept_def using al1 walls1 m1 False by auto
      have k: "kept W H R E M (fst (snd r))" by (rule kept_trans [OF k0 k1])
      have "search_ok W H R E c (M, sol, st) r"
      proof (cases "fst r")
        case True
        with ok k show ?thesis by (simp add: loop_ok_def search_ok_def)
      next
        case nf: False
        with ok have b: "snd (snd r) = (sol, st)" "set ns \<subseteq> marked W H (fst (snd r))"
          "explored W H R ?M1 (fst (snd r))"
          by (simp_all add: loop_ok_def)
        have cm: "c \<in> marked W H (fst (snd r))" using sub1 m1 by blast
        have nb: "n \<in> marked W H (fst (snd r))" if "inside W H n" "R c n" for n
        proof (cases "n \<in> marked W H ?M1")
          case True
          with sub1 show ?thesis by blast
        next
          case False
          with that walls1 have "n \<in> set ns" using mem by blast
          with b(2) show ?thesis by blast
        qed
        have ex: "explored W H R M (fst (snd r))"
          unfolding explored_def
        proof (intro ballI allI impI)
          fix x n assume x: "x \<in> marked W H (fst (snd r)) - marked W H M"
            and n: "inside W H n" "R x n"
          show "n \<in> marked W H (fst (snd r))"
          proof (cases "x = c")
            case True
            with n nb show ?thesis by blast
          next
            case False
            with x m1 have "x \<in> marked W H (fst (snd r)) - marked W H ?M1" by simp
            with b(3) n show ?thesis unfolding explored_def by blast
          qed
        qed
        show ?thesis
          unfolding search_ok_def using nf k b(1) cm ex nb by simp
      qed
      with run show ?thesis by blast
    qed
  qed
qed

subsection \<open>A search on a grid with all marks cleared\<close>

lemma passages_steps: "passages W H M \<subseteq> steps W H M"
  unfolding passages_def steps_def passage_def by blast

lemma clear_visited_result:
  assumes al: "allocated W H M"
  obtains M0 where "clear_visited (grid_coords W H) M = (None, M0)"
    and "allocated W H M0" and "marked W H M0 = {}"
    and "\<And>a b. open_to M0 a b = open_to M a b"
proof -
  let ?M0 = "\<lambda>c. if c \<in> set (grid_coords W H)
                  then map_option (\<lambda>a. a\<lparr>visited := False\<rparr>) (M c) else M c"
  have "\<forall>c \<in> set (grid_coords W H). M c \<noteq> None"
    using al unfolding allocated_def set_grid_coords by blast
  then have run: "clear_visited (grid_coords W H) M = (None, ?M0)"
    by (rule clear_visited_all)
  have 1: "allocated W H ?M0"
    using al unfolding allocated_def by simp
  have 2: "marked W H ?M0 = {}"
  proof (rule equals0I)
    fix c assume "c \<in> marked W H ?M0"
    then have i: "inside W H c" and v: "\<exists>a. ?M0 c = Some a \<and> visited a"
      unfolding marked_def by blast+
    from i have "c \<in> set (grid_coords W H)" by (simp add: set_grid_coords)
    with v show False by (cases "M c") simp_all
  qed
  have 3: "open_to ?M0 a b = open_to M a b" for a b
    by (cases "M a") (simp_all add: open_to_def)
  show thesis by (rule that [OF run 1 2 3])
qed

lemma unmarked_cleared:
  assumes "marked W H M = {}" and "0 \<le> W" and "0 \<le> H"
  shows "unmarked W H M = nat (W * H)"
  using assms by (simp add: unmarked_def card_grid)

lemma Solver_verdict:
  assumes al: "allocated W H M" and clear: "marked W H M = {}"
    and e: "inside W H e" and d: "2 * nat (W * H) < d"
  obtains r where "Solver d W H E e (M, sol, st) = Inr r"
    and "kept W H (open_to M) E M (fst (snd r))"
    and "fst r \<Longrightarrow> \<exists>p. fst (snd (snd r)) = sol @ p \<and> route W H (open_to M) E e p
            \<and> snd (snd (snd r)) + 1 = st + length p"
    and "\<not> fst r \<Longrightarrow> (e, E) \<notin> (steps W H M)\<^sup>*"
proof -
  from e have nonneg: "0 \<le> W" "0 \<le> H" by (simp_all add: inside_def)
  have b: "budget W H M e < d"
    using d clear by (simp add: budget_def unmarked_cleared [OF clear nonneg])
  have w: "\<forall>a b. open_to M a b = open_to M a b" by simp
  from Solver_correct [OF al w e b, of E sol st]
  obtain r where run: "Solver d W H E e (M, sol, st) = Inr r"
    and ok: "search_ok W H (open_to M) E e (M, sol, st) r" by blast
  have k: "kept W H (open_to M) E M (fst (snd r))" using ok by (simp add: search_ok_def)
  have t: "\<exists>p. fst (snd (snd r)) = sol @ p \<and> route W H (open_to M) E e p
            \<and> snd (snd (snd r)) + 1 = st + length p" if "fst r"
    using ok that by (simp add: search_ok_def)
  have f: "(e, E) \<notin> (steps W H M)\<^sup>*" if nf: "\<not> fst r"
  proof
    assume path: "(e, E) \<in> (steps W H M)\<^sup>*"
    let ?M' = "fst (snd r)"
    from ok nf have em: "e \<in> marked W H ?M'" and ex: "explored W H (open_to M) M ?M'"
      by (simp_all add: search_ok_def)
    from path have "E \<in> marked W H ?M'"
    proof (induction rule: rtrancl_induct)
      case base
      show ?case by (rule em)
    next
      case (step y z)
      from step.hyps(2) have z: "inside W H z" "open_to M y z" by (simp_all add: steps_def)
      from step.IH clear have "y \<in> marked W H ?M' - marked W H M" by simp
      with ex z show ?case unfolding explored_def by blast
    qed
    moreover have "E \<notin> marked W H ?M'" using k clear unfolding kept_def by blast
    ultimately show False by contradiction
  qed
  show thesis by (rule that [OF run k t f])
qed

subsection \<open>The solution of a generated grid\<close>

lemma passages_adjacent:
  assumes "(a, b) \<in> passages W H M"
  shows "\<bar>fst a - fst b\<bar> + \<bar>snd a - snd b\<bar> = 1"
proof (rule passages_toward [OF assms])
  fix k :: nat assume "k < 4" and b: "b = toward k a"
  then consider "k = 0" | "k = 1" | "k = 2" | "k = 3" by linarith
  then show ?thesis by cases (simp_all add: b toward_def)
qed

lemma route_passages:
  assumes r: "route W H (open_to M) E e p"
    and sym: "\<And>a b. inside W H a \<Longrightarrow> inside W H b \<Longrightarrow> open_to M a b \<Longrightarrow> open_to M b a"
  shows "p \<noteq> [] \<and> hd p = E \<and> last p = e
    \<and> successively (\<lambda>a b. \<bar>fst a - fst b\<bar> + \<bar>snd a - snd b\<bar> = 1 \<and> (a, b) \<in> passages W H M) p"
proof -
  from r have 1: "p \<noteq> []" "hd p = E" "last p = e"
    and s: "successively (\<lambda>x y. inside W H x \<and> inside W H y \<and> open_to M y x) p"
    by (simp_all add: route_def)
  have "successively (\<lambda>a b. \<bar>fst a - fst b\<bar> + \<bar>snd a - snd b\<bar> = 1 \<and> (a, b) \<in> passages W H M) p"
    using s
  proof (rule successively_mono)
    fix x y assume "inside W H x \<and> inside W H y \<and> open_to M y x"
    then have *: "inside W H x" "inside W H y" "open_to M y x" by simp_all
    from sym [OF *(2) *(1) *(3)] have "open_to M x y" .
    with * have "(x, y) \<in> passages W H M" by (simp add: passages_def passage_def)
    then show "\<bar>fst x - fst y\<bar> + \<bar>snd x - snd y\<bar> = 1 \<and> (x, y) \<in> passages W H M"
      using passages_adjacent by blast
  qed
  with 1 show ?thesis by simp
qed

lemma solve_generated:
  assumes wf: "well_formed g" and d: "2 * nat (WIDTH g * HEIGHT g) < depth"
  obtains M rnd M0 M' p n
  where "BuildMaze depth (ResetValues g) = Inr (ResetValues g\<lparr>Maze := M, Math_random := rnd\<rparr>)"
    and "clear_visited (grid_coords (WIDTH g) (HEIGHT g)) M = (None, M0)"
    and "Solver depth (WIDTH g) (HEIGHT g) (STARTING_X g, STARTING_Y g)
           (ENTRANCE_X g, ENTRANCE_Y g) (M0, [], 0) = Inr (True, (M', p, n))"
    and "n + 1 = length p"
    and "p \<noteq> [] \<and> hd p = (STARTING_X g, STARTING_Y g) \<and> last p = (ENTRANCE_X g, ENTRANCE_Y g)
      \<and> successively (\<lambda>a b. \<bar>fst a - fst b\<bar> + \<bar>snd a - snd b\<bar> = 1
            \<and> (a, b) \<in> passages (WIDTH g) (HEIGHT g) M) p"
proof -
  let ?W = "WIDTH g" and ?H = "HEIGHT g"
  let ?E = "(STARTING_X g, STARTING_Y g)" and ?e = "(ENTRANCE_X g, ENTRANCE_Y g)"
  let ?g = "ResetValues g"
  have same: "WIDTH ?g = ?W" "HEIGHT ?g = ?H" by (simp_all add: ResetValues_def)
  have wf': "well_formed ?g" using wf by (simp add: well_formed_def ResetValues_def)
  have d': "nat (WIDTH ?g * HEIGHT ?g) \<le> depth" using d by (simp add: same)
  have e: "inside ?W ?H ?e" and E: "inside ?W ?H ?E" using wf by (simp_all add: well_formed_def)
  have out: "door ?g a b \<Longrightarrow> inside (WIDTH ?g) (HEIGHT ?g) a \<and> \<not> inside (WIDTH ?g) (HEIGHT ?g) b"
    for a b using wf' by (rule door_outside)
  show thesis
  proof (rule BuildMaze_result [OF wf' d'])
    fix M rnd
    assume run: "BuildMaze depth ?g = Inr (?g\<lparr>Maze := M, Math_random := rnd\<rparr>)"
      and al: "allocated (WIDTH ?g) (HEIGHT ?g) M"
      and tr: "tree {c. inside (WIDTH ?g) (HEIGHT ?g) c} (passages (WIDTH ?g) (HEIGHT ?g) M)"
      and sides: "\<And>a b. inside (WIDTH ?g) (HEIGHT ?g) a \<Longrightarrow>
          open_to M a b \<longleftrightarrow> (inside (WIDTH ?g) (HEIGHT ?g) b \<and> open_to M b a) \<or> door ?g a b"
    have sym: "open_to M b a" if "inside ?W ?H a" "inside ?W ?H b" "open_to M a b" for a b
      using sides [of a b] out [of a b] that unfolding same by blast
    have conn: "(?e, ?E) \<in> (passages ?W ?H M)\<^sup>*"
      using tr e E unfolding same by (simp add: tree_connected)
    show thesis
    proof (rule clear_visited_result [OF al [unfolded same]])
      fix M0
      assume cl: "clear_visited (grid_coords ?W ?H) M = (None, M0)"
        and al0: "allocated ?W ?H M0" and un: "marked ?W ?H M0 = {}"
        and op: "\<And>a b. open_to M0 a b = open_to M a b"
      have opf: "open_to M0 = open_to M" using op by (intro ext)
      have st: "steps ?W ?H M0 = steps ?W ?H M" by (simp add: steps_def op)
      show thesis
      proof (rule Solver_verdict [OF al0 un e d, of ?E "[]" 0])
        fix r
        assume sr: "Solver depth ?W ?H ?E ?e (M0, [], 0) = Inr r"
          and yes: "fst r \<Longrightarrow> \<exists>p. fst (snd (snd r)) = [] @ p \<and> route ?W ?H (open_to M0) ?E ?e p
            \<and> snd (snd (snd r)) + 1 = 0 + length p"
          and no: "\<not> fst r \<Longrightarrow> (?e, ?E) \<notin> (steps ?W ?H M0)\<^sup>*"
        have "(?e, ?E) \<in> (steps ?W ?H M0)\<^sup>*"
          unfolding st using conn by (rule rtrancl_mono [OF passages_steps, THEN subsetD])
        with no have f: "fst r" by blast
        from yes [OF f] obtain p where p: "fst (snd (snd r)) = p" "route ?W ?H (open_to M) ?E ?e p"
          "snd (snd (snd r)) + 1 = length p"
          unfolding opf by auto
        have r: "r = (True, (fst (snd r), p, snd (snd (snd r))))"
          using f p(1) by (simp add: prod_eq_iff)
        show thesis
        proof (rule that [OF run cl])
          show "Solver depth ?W ?H ?E ?e (M0, [], 0) = Inr (True, (fst (snd r), p, snd (snd (snd r))))"
            using sr r by simp
          show "snd (snd (snd r)) + 1 = length p" by (rule p(3))
          show "p \<noteq> [] \<and> hd p = ?E \<and> last p = ?e
            \<and> successively (\<lambda>a b. \<bar>fst a - fst b\<bar> + \<bar>snd a - snd b\<bar> = 1
                  \<and> (a, b) \<in> passages ?W ?H M) p"
            using p(2) sym by (rule route_passages)
        qed
      qed
    qed
  qed
qed

text \<open>
  C3.  For every well-formed configuration and a call stack that allows a depth of
  \<open>2 * WIDTH * HEIGHT + 1\<close>, whatever the random draws: after \<^verbatim>\<open>ResetValues\<close>, the
  generation and \<^verbatim>\<open>SolveMaze\<close> complete, and \<^verbatim>\<open>Solution_List\<close> is not empty, its
  first entry is the exit cell \<^verbatim>\<open>(STARTING_X, STARTING_Y)\<close>, its last entry is the
  entrance cell, each entry and the next are cells at distance 1 joined by a passage of
  the generated grid (both facing wall flags cleared), and \<^verbatim>\<open>Steps_to_Solve\<close> is the
  length of the list minus 1.
\<close>

theorem solution_runs_from_exit_to_entrance:
  assumes "well_formed g" and "2 * nat (WIDTH g * HEIGHT g) < depth"
  shows "\<exists>g1 g2. BuildMaze depth (ResetValues g) = Inr g1 \<and> SolveMaze depth g1 = Inr g2
    \<and> Solution_List g2 \<noteq> []
    \<and> hd (Solution_List g2) = (STARTING_X g, STARTING_Y g)
    \<and> last (Solution_List g2) = (ENTRANCE_X g, ENTRANCE_Y g)
    \<and> successively (\<lambda>a b. \<bar>fst a - fst b\<bar> + \<bar>snd a - snd b\<bar> = 1
          \<and> (a, b) \<in> passages (WIDTH g) (HEIGHT g) (Maze g1)) (Solution_List g2)
    \<and> Steps_to_Solve g2 + 1 = length (Solution_List g2)"
proof (rule solve_generated [OF assms])
  let ?W = "WIDTH g" and ?H = "HEIGHT g"
  let ?E = "(STARTING_X g, STARTING_Y g)" and ?e = "(ENTRANCE_X g, ENTRANCE_Y g)"
  fix M rnd M0 M' p n
  let ?g1 = "ResetValues g\<lparr>Maze := M, Math_random := rnd\<rparr>"
  let ?g2 = "?g1\<lparr>Maze := M', Solution_List := p, Steps_to_Solve := n\<rparr>"
  assume run: "BuildMaze depth (ResetValues g) = Inr ?g1"
    and cl: "clear_visited (grid_coords ?W ?H) M = (None, M0)"
    and sr: "Solver depth ?W ?H ?E ?e (M0, [], 0) = Inr (True, (M', p, n))"
    and n: "n + 1 = length p"
    and p: "p \<noteq> [] \<and> hd p = ?E \<and> last p = ?e
      \<and> successively (\<lambda>a b. \<bar>fst a - fst b\<bar> + \<bar>snd a - snd b\<bar> = 1
            \<and> (a, b) \<in> passages ?W ?H M) p"
  have f: "WIDTH ?g1 = ?W" "HEIGHT ?g1 = ?H" "STARTING_X ?g1 = STARTING_X g"
    "STARTING_Y ?g1 = STARTING_Y g" "ENTRANCE_X ?g1 = ENTRANCE_X g"
    "ENTRANCE_Y ?g1 = ENTRANCE_Y g" "Maze ?g1 = M" "Solution_List ?g1 = []"
    "Steps_to_Solve ?g1 = 0"
    by (simp_all add: ResetValues_def)
  have solve: "SolveMaze depth ?g1 = Inr ?g2"
    by (simp add: SolveMaze_def f cl sr)
  have g2: "Solution_List ?g2 = p" "Steps_to_Solve ?g2 = n" by simp_all
  show ?thesis
  proof (intro exI conjI)
    show "BuildMaze depth (ResetValues g) = Inr ?g1" by (rule run)
    show "SolveMaze depth ?g1 = Inr ?g2" by (rule solve)
    show "Solution_List ?g2 \<noteq> []" unfolding g2 using p by simp
    show "hd (Solution_List ?g2) = ?E" unfolding g2 using p by simp
    show "last (Solution_List ?g2) = ?e" unfolding g2 using p by simp
    show "successively (\<lambda>a b. \<bar>fst a - fst b\<bar> + \<bar>snd a - snd b\<bar> = 1
          \<and> (a, b) \<in> passages ?W ?H (Maze ?g1)) (Solution_List ?g2)"
      unfolding g2 f using p by simp
    show "Steps_to_Solve ?g2 + 1 = length (Solution_List ?g2)" unfolding g2 by (rule n)
  qed
qed

theorem solution_runs_from_exit_to_entrance_witness:
  "\<exists>g1 g2. BuildMaze 5 (ResetValues two_cells) = Inr g1 \<and> SolveMaze 5 g1 = Inr g2
    \<and> Solution_List g2 \<noteq> []
    \<and> hd (Solution_List g2) = (1, 0)
    \<and> last (Solution_List g2) = (0, 0)
    \<and> successively (\<lambda>a b. \<bar>fst a - fst b\<bar> + \<bar>snd a - snd b\<bar> = 1
          \<and> (a, b) \<in> passages 2 1 (Maze g1)) (Solution_List g2)
    \<and> Steps_to_Solve g2 + 1 = length (Solution_List g2)"
proof -
  have 1: "well_formed two_cells"
    by (simp add: well_formed_def two_cells_def inside_def toward_def)
  have 2: "2 * nat (WIDTH two_cells * HEIGHT two_cells) < 5"
    by (simp add: two_cells_def)
  have 3: "WIDTH two_cells = 2" "HEIGHT two_cells = 1" "STARTING_X two_cells = 1"
    "STARTING_Y two_cells = 0" "ENTRANCE_X two_cells = 0" "ENTRANCE_Y two_cells = 0"
    by (simp_all add: two_cells_def)
  from solution_runs_from_exit_to_entrance [OF 1 2] show ?thesis
    unfolding 3 .
qed

subsection \<open>A grid on which the solver fails\<close>




end
